theory Spec2Isabelle
  imports Main "HOL-Library.Multiset" "HOL-Library.Char_ord" "HOL-Library.List_Lexorder"
begin

section \<open>Strings and the string built-ins used by the leads manager\<close>

text \<open>
  JavaScript strings are modelled as \<open>string\<close> (lists of 8-bit characters), so the
  development covers texts whose code units are below 256. The relational operator
  \<open><\<close> of JavaScript on strings compares code units lexicographically; that is the
  order on \<open>char list\<close> given by the character order and the lexicographic list order.
\<close>

abbreviation dquote :: char where "dquote \<equiv> CHR 0x22"
abbreviation newline :: char where "newline \<equiv> CHR 0x0A"
abbreviation comma :: char where "comma \<equiv> CHR 0x2C"
abbreviation slash :: char where "slash \<equiv> CHR 0x2F"
abbreviation dash :: char where "dash \<equiv> CHR 0x2D"

text \<open>\<open>c.toLowerCase()\<close> on code units below 256: the ASCII capitals and the
  Latin-1 capitals (all of \<open>0xC0..0xDE\<close> but the multiplication sign) move up by 32.\<close>

definition toLowerChar :: "char \<Rightarrow> char" where
  "toLowerChar c =
     (let n = (of_char c :: nat) in
      if (65 \<le> n \<and> n \<le> 90) \<or> (192 \<le> n \<and> n \<le> 222 \<and> n \<noteq> 215)
      then char_of (n + 32) else c)"

definition toLowerCase :: "string \<Rightarrow> string" where
  "toLowerCase s = map toLowerChar s"

text \<open>\<open>s.includes(t)\<close>: \<open>t\<close> occurs in \<open>s\<close> as a contiguous piece.\<close>

fun js_includes :: "string \<Rightarrow> string \<Rightarrow> bool" where
  "js_includes [] t = (t = [])"
| "js_includes (c # cs) t = (take (length t) (c # cs) = t \<or> js_includes cs t)"

text \<open>The white space and line terminators that \<open>String.prototype.trim\<close> strips,
  restricted to code units below 256: TAB, LF, VT, FF, CR, SPACE and NBSP.\<close>

definition isSpace :: "char \<Rightarrow> bool" where
  "isSpace c = (c \<in> set [CHR 0x09, CHR 0x0A, CHR 0x0B, CHR 0x0C, CHR 0x0D, CHR 0x20, CHR 0xA0])"

definition js_trim :: "string \<Rightarrow> string" where
  "js_trim s = rev (dropWhile isSpace (rev (dropWhile isSpace s)))"

text \<open>\<open>s.split(c)\<close> for a one-character separator: always at least one piece.\<close>

fun js_split :: "char \<Rightarrow> string \<Rightarrow> string list" where
  "js_split c [] = [[]]"
| "js_split c (x # xs) =
     (if x = c then [] # js_split c xs
      else (case js_split c xs of [] \<Rightarrow> [[x]] | w # ws \<Rightarrow> (x # w) # ws))"

text \<open>\<open>xs.join(sep)\<close>.\<close>

fun js_join :: "string \<Rightarrow> string list \<Rightarrow> string" where
  "js_join sep [] = []"
| "js_join sep [x] = x"
| "js_join sep (x # y # ys) = x @ sep @ js_join sep (y # ys)"

text \<open>\<open>s.replace(/"/g, '')\<close> and \<open>s.replace(/"/g, '""')\<close>.\<close>

definition stripQuotes :: "string \<Rightarrow> string" where
  "stripQuotes s = filter (\<lambda>c. c \<noteq> dquote) s"

definition doubleQuotes :: "string \<Rightarrow> string" where
  "doubleQuotes s = concat (map (\<lambda>c. if c = dquote then [dquote, dquote] else [c]) s)"

section \<open>Records\<close>

text \<open>
  A lead is a JavaScript object whose property values are strings: the list of its own
  properties in the order \<open>Object.keys\<close> enumerates them. Reading a property that is
  absent yields \<open>undefined\<close>, here \<open>None\<close>. Assigning a string to a property
  overwrites it in place or appends it at the end, except for the name \<open>__proto__\<close>,
  whose setter ignores a string and creates no property.

  Two features of JavaScript objects are left out. Names that are array indices are
  enumerated first and in numeric order by JavaScript; here they stay where they were
  inserted. Reading a name that the object lacks but \<open>Object.prototype\<close> defines (such
  as \<open>toString\<close>) gives the inherited member in JavaScript; here it gives \<open>None\<close>.
  None of the names the manager reads by itself (\<open>ID\<close>, \<open>Lead Name\<close>, \<open>First Name\<close>,
  \<open>Stage\<close>, \<open>Source\<close>, \<open>Responsible\<close>, \<open>Created\<close>, \<open>Follow Up\<close>) is of these kinds.
\<close>

type_synonym lead = "(string \<times> string) list"

definition field :: "lead \<Rightarrow> string \<Rightarrow> string option" where
  "field l k = map_of l k"

fun setField :: "lead \<Rightarrow> string \<Rightarrow> string \<Rightarrow> lead" where
  "setField [] k v = [(k, v)]"
| "setField ((k', v') # ps) k v =
     (if k' = k then (k, v) # ps else (k', v') # setField ps k v)"

definition assignField :: "lead \<Rightarrow> string \<Rightarrow> string \<Rightarrow> lead" where
  "assignField row k v = (if k = ''__proto__'' then row else setField row k v)"

text \<open>\<open>x || ''\<close> for a property read or an array read: \<open>undefined\<close> and the empty
  string both give the empty string.\<close>

definition orEmpty :: "string option \<Rightarrow> string" where
  "orEmpty v = (case v of None \<Rightarrow> [] | Some s \<Rightarrow> s)"

definition arrayGet :: "'a list \<Rightarrow> nat \<Rightarrow> 'a option" where
  "arrayGet xs i = (if i < length xs then Some (xs ! i) else None)"

section \<open>CSV codec\<close>

text \<open>The loop of \<open>parseCSVLine\<close>, over the characters still to read, with the
  variables \<open>result\<close>, \<open>current\<close> and \<open>inQuotes\<close>.\<close>

fun parseCSVLine_loop :: "string \<Rightarrow> string list \<Rightarrow> string \<Rightarrow> bool \<Rightarrow> string list" where
  "parseCSVLine_loop [] result current inQuotes = result @ [js_trim current]"
| "parseCSVLine_loop (c # cs) result current inQuotes =
     (if c = dquote then parseCSVLine_loop cs result current (\<not> inQuotes)
      else if c = comma \<and> \<not> inQuotes then parseCSVLine_loop cs (result @ [js_trim current]) [] inQuotes
      else parseCSVLine_loop cs result (current @ [c]) inQuotes)"

definition parseCSVLine :: "string \<Rightarrow> string list" where
  "parseCSVLine line = parseCSVLine_loop line [] [] False"

text \<open>The \<open>headers.forEach\<close> that fills one row.\<close>

definition makeRow :: "string list \<Rightarrow> string list \<Rightarrow> lead" where
  "makeRow headers values =
     fold (\<lambda>(header, index) row. assignField row header (orEmpty (arrayGet values index)))
       (zip headers [0..<length headers]) []"

text \<open>The \<open>for\<close> loop of \<open>parseCSV\<close> over the lines after the header.\<close>

fun parseCSV_rows :: "string list \<Rightarrow> string list \<Rightarrow> lead list" where
  "parseCSV_rows headers [] = []"
| "parseCSV_rows headers (l # ls) =
     (let values = parseCSVLine l in
      if length values = length headers
      then makeRow headers values # parseCSV_rows headers ls
      else parseCSV_rows headers ls)"

definition csvLines :: "string \<Rightarrow> string list" where
  "csvLines csv = filter (\<lambda>line. js_trim line \<noteq> []) (js_split newline csv)"

definition csvHeaders :: "string \<Rightarrow> string list" where
  "csvHeaders line = map (\<lambda>h. stripQuotes (js_trim h)) (js_split comma line)"

definition parseCSV :: "string \<Rightarrow> lead list" where
  "parseCSV csv =
     (let lines = csvLines csv in
      if length lines < 2 then []
      else parseCSV_rows (csvHeaders (hd lines)) (tl lines))"

text \<open>\<open>exportToCSV\<close> up to the CSV text: \<open>None\<close> when there is nothing to export
  (the early return).\<close>

definition csvCell :: "lead \<Rightarrow> string \<Rightarrow> string" where
  "csvCell l header = [dquote] @ doubleQuotes (orEmpty (field l header)) @ [dquote]"

definition exportToCSV :: "lead list \<Rightarrow> string option" where
  "exportToCSV fl =
     (case fl of
        [] \<Rightarrow> None
      | first # _ \<Rightarrow>
          (let headers = map fst first in
           Some (js_join [newline]
             (js_join [comma] headers # map (\<lambda>l. js_join [comma] (map (csvCell l) headers)) fl))))"

section \<open>The manager and the run-time built-ins it calls\<close>

record manager =
  leads :: "lead list"
  filteredLeads :: "lead list"
  currentPage :: int
  pageSize :: int
  sortColumn :: string
  sortDirection :: string

text \<open>
  \<open>parseInt\<close> and \<open>Date\<close> belong to the JavaScript run time, not to the program, and
  are parameters of the model. Numbers are values of a linear order \<open>'n\<close> with a zero;
  \<open>None\<close> is \<open>NaN\<close>. \<open>dateTime s\<close> is the time value of \<open>new Date(s)\<close> (\<open>None\<close> for
  an invalid date) and \<open>toDateString\<close> the text that \<open>Date.prototype.toDateString\<close>
  gives for a time value.

  Two more parameters stand for what ECMAScript leaves to the engine.
  \<open>nativeText name\<close> is the text \<open>Function.prototype.toString\<close> gives for the
  function that \<open>Object.prototype\<close> holds under \<open>name\<close>. \<open>sortInconsistent cmp xs\<close>
  is the order in which \<open>Array.prototype.sort\<close> leaves the array \<open>xs\<close> when \<open>cmp\<close>
  is not a consistent comparator for its elements: that order is implementation-defined.
\<close>

record 'n builtins =
  parseInt :: "string \<Rightarrow> 'n option"
  dateTime :: "string \<Rightarrow> 'n option"
  toDateString :: "'n option \<Rightarrow> string"
  nativeText :: "string \<Rightarrow> string"
  sortInconsistent :: "(lead \<Rightarrow> lead \<Rightarrow> int) \<Rightarrow> lead list \<Rightarrow> lead list"

datatype error = TypeError

text \<open>An operation either completes with the new state (\<open>Inr\<close>) or throws, leaving
  the manager in the state paired with the error (\<open>Inl\<close>).\<close>

type_synonym outcome = "(error \<times> manager) + manager"

definition finalState :: "outcome \<Rightarrow> manager" where
  "finalState r = (case r of Inl (e, s) \<Rightarrow> s | Inr s \<Rightarrow> s)"

definition constructed :: manager where
  "constructed = \<lparr>leads = [], filteredLeads = [], currentPage = 1, pageSize = 10,
     sortColumn = [], sortDirection = ''asc''\<rparr>"

section \<open>Record store\<close>

text \<open>
  \<open>loadStoredLeads\<close>: \<open>stored\<close> is what \<open>localStorage.getItem\<close> returned (\<open>None\<close> for
  \<open>null\<close>). \<open>parse\<close> stands for \<open>JSON.parse\<close> followed by the spread of its result,
  both inside the \<open>try\<close>: \<open>None\<close> when either throws (text that is not JSON, or a JSON
  value that is not iterable), the array of records otherwise. Stored JSON that parses
  and spreads but is not an array of records with string values (a JSON string, an
  array of numbers) has no counterpart in \<open>lead list\<close> and is not covered.
\<close>

definition loadStoredLeads :: "(string \<Rightarrow> lead list option) \<Rightarrow> string option \<Rightarrow> manager \<Rightarrow> manager" where
  "loadStoredLeads parse stored s =
     (case stored of
        None \<Rightarrow> s
      | Some text \<Rightarrow>
          if text = [] then s
          else (case parse text of
                  Some ls \<Rightarrow> s\<lparr>leads := ls, filteredLeads := ls\<rparr>
                | None \<Rightarrow> s\<lparr>leads := [], filteredLeads := []\<rparr>))"

text \<open>The constructor: the initial fields, then \<open>init\<close>, whose only effect on the
  fields is \<open>loadStoredLeads\<close>.\<close>

definition newManager :: "(string \<Rightarrow> lead list option) \<Rightarrow> string option \<Rightarrow> manager" where
  "newManager parse stored = loadStoredLeads parse stored constructed"

text \<open>One round of the \<open>newLeads.forEach\<close> of \<open>importLeads\<close>, on \<open>this.leads\<close>,
  \<open>importedCount\<close> and \<open>skippedCount\<close>.\<close>

definition importStep :: "bool \<Rightarrow> lead \<Rightarrow> lead list \<times> nat \<times> nat \<Rightarrow> lead list \<times> nat \<times> nat" where
  "importStep skipDuplicates lead acc =
     (case acc of (ls, importedCount, skippedCount) \<Rightarrow>
        if skipDuplicates \<and> list_ex (\<lambda>existing. field existing ''ID'' = field lead ''ID'') ls
        then (ls, importedCount, skippedCount + 1)
        else (ls @ [lead], importedCount + 1, skippedCount))"

definition importLoop :: "bool \<Rightarrow> lead list \<Rightarrow> lead list \<Rightarrow> lead list \<times> nat \<times> nat" where
  "importLoop skipDuplicates newLeads ls = fold (importStep skipDuplicates) newLeads (ls, 0, 0)"

section \<open>Query engine\<close>

text \<open>The values of the search box and of the four filter controls.\<close>

record filters =
  searchInput :: string
  stageFilter :: string
  sourceFilter :: string
  responsibleFilter :: string
  dateFilter :: string

text \<open>\<open>lead[k]?.toLowerCase().includes(t)\<close> and \<open>lead.ID?.toString().includes(t)\<close>:
  an absent property makes the whole chain \<open>undefined\<close>, which counts as false.\<close>

definition fieldIncludes :: "(string \<Rightarrow> string) \<Rightarrow> string option \<Rightarrow> string \<Rightarrow> bool" where
  "fieldIncludes conv v t = (case v of None \<Rightarrow> False | Some x \<Rightarrow> js_includes (conv x) t)"

text \<open>The callback of \<open>this.leads.filter\<close> in \<open>filterLeads\<close>. Reading \<open>split\<close> from
  an absent \<open>Created\<close> throws a \<open>TypeError\<close>.\<close>

definition matchesLead :: "'n builtins \<Rightarrow> filters \<Rightarrow> lead \<Rightarrow> error + bool" where
  "matchesLead rt f lead =
     (let searchTerm = toLowerCase (searchInput f);
          matchesSearch = (searchTerm = []
             \<or> fieldIncludes toLowerCase (field lead ''Lead Name'') searchTerm
             \<or> fieldIncludes toLowerCase (field lead ''First Name'') searchTerm
             \<or> fieldIncludes (\<lambda>x. x) (field lead ''ID'') searchTerm);
          matchesStage = (stageFilter f = [] \<or> field lead ''Stage'' = Some (stageFilter f));
          matchesSource = (sourceFilter f = [] \<or> field lead ''Source'' = Some (sourceFilter f));
          matchesResponsible =
            (responsibleFilter f = [] \<or> field lead ''Responsible'' = Some (responsibleFilter f))
      in if dateFilter f \<noteq> [] then
           (case field lead ''Created'' of
              None \<Rightarrow> Inl TypeError
            | Some created \<Rightarrow>
                (let leadDate = dateTime rt (js_join [dash] (rev (js_split slash created)));
                     filterDate = dateTime rt (dateFilter f);
                     matchesDate = (toDateString rt leadDate = toDateString rt filterDate)
                 in Inr (matchesSearch \<and> matchesStage \<and> matchesSource \<and> matchesResponsible
                          \<and> matchesDate)))
         else Inr (matchesSearch \<and> matchesStage \<and> matchesSource \<and> matchesResponsible))"

text \<open>\<open>Array.prototype.filter\<close> with a callback that may throw: the first throw ends
  the traversal.\<close>

fun filterThrowing :: "('a \<Rightarrow> error + bool) \<Rightarrow> 'a list \<Rightarrow> error + 'a list" where
  "filterThrowing p [] = Inr []"
| "filterThrowing p (x # xs) =
     (case p x of
        Inl e \<Rightarrow> Inl e
      | Inr keep \<Rightarrow>
          (case filterThrowing p xs of
             Inl e \<Rightarrow> Inl e
           | Inr ys \<Rightarrow> Inr (if keep then x # ys else ys)))"

definition filterLeads :: "'n builtins \<Rightarrow> filters \<Rightarrow> manager \<Rightarrow> outcome" where
  "filterLeads rt f s =
     (case filterThrowing (matchesLead rt f) (leads s) of
        Inl e \<Rightarrow> Inl (e, s)
      | Inr fl \<Rightarrow> Inr (s\<lparr>filteredLeads := fl, currentPage := 1\<rparr>))"

text \<open>\<open>importLeads\<close> from the parsed \<open>newLeads\<close> on: the loop, then \<open>filterLeads\<close>
  inside the \<open>try\<close>. The result pairs the state with the two counts of the success
  notice, or with \<open>None\<close> when the \<open>catch\<close> ran.\<close>

definition importLeads :: "'n builtins \<Rightarrow> filters \<Rightarrow> bool \<Rightarrow> lead list \<Rightarrow> manager \<Rightarrow> manager \<times> (nat \<times> nat) option" where
  "importLeads rt f skipDuplicates newLeads s =
     (case importLoop skipDuplicates newLeads (leads s) of
        (ls, importedCount, skippedCount) \<Rightarrow>
          (case filterLeads rt f (s\<lparr>leads := ls\<rparr>) of
             Inr s' \<Rightarrow> (s', Some (importedCount, skippedCount))
           | Inl (e, s') \<Rightarrow> (s', None)))"

text \<open>\<open>deleteLead\<close>: \<open>confirmed\<close> is the answer of the \<open>confirm\<close> dialogue.\<close>

definition deleteLead :: "'n builtins \<Rightarrow> filters \<Rightarrow> string \<Rightarrow> bool \<Rightarrow> manager \<Rightarrow> outcome" where
  "deleteLead rt f ident confirmed s =
     (if confirmed
      then filterLeads rt f (s\<lparr>leads := filter (\<lambda>lead. field lead ''ID'' \<noteq> Some ident) (leads s)\<rparr>)
      else Inr s)"

subsection \<open>Sorting\<close>

text \<open>
  \<open>columnMap\<close> is an object literal, and \<open>columnMap[column]\<close> also finds what the
  literal inherits from \<open>Object.prototype\<close>: eleven functions, and under \<open>__proto__\<close>
  the prototype object itself. All of these are truthy, so the early return of
  \<open>sortTable\<close> is not taken for them. Used as a property name in \<open>a[actualColumn]\<close>,
  such a value is converted to a string: \<open>[object Object]\<close> for the prototype object,
  the function's text for a function. It is never \<open>===\<close> to a string.
\<close>

definition columnTable :: "(string \<times> string) list" where
  "columnTable =
     [(''sort-id'', ''ID''),
      (''sort-name'', ''Lead Name''),
      (''sort-stage'', ''Stage''),
      (''sort-source'', ''Source''),
      (''sort-responsible'', ''Responsible''),
      (''sort-created'', ''Created''),
      (''sort-followup'', ''Follow Up'')]"

definition objectPrototypeFunctions :: "string list" where
  "objectPrototypeFunctions =
     [''constructor'', ''hasOwnProperty'', ''isPrototypeOf'', ''propertyIsEnumerable'',
      ''toLocaleString'', ''toString'', ''valueOf'',
      ''__defineGetter__'', ''__defineSetter__'', ''__lookupGetter__'', ''__lookupSetter__'']"

text \<open>The value of \<open>actualColumn\<close>: a field name of the table, or an inherited member,
  kept as the property name it converts to.\<close>

datatype colref = Named string | Member string

definition columnMap :: "'n builtins \<Rightarrow> string \<Rightarrow> colref option" where
  "columnMap rt column =
     (case map_of columnTable column of
        Some name \<Rightarrow> Some (Named name)
      | None \<Rightarrow>
          if column = ''__proto__'' then Some (Member ''[object Object]'')
          else if column \<in> set objectPrototypeFunctions then Some (Member (nativeText rt column))
          else None)"

definition propertyName :: "colref \<Rightarrow> string" where
  "propertyName c = (case c of Named name \<Rightarrow> name | Member text \<Rightarrow> text)"

text \<open>The values the comparator compares: a string, a number, or a \<open>Date\<close> with its
  time value. \<open><\<close> on two dates compares the time values, and is false as soon as one
  is \<open>NaN\<close>.\<close>

datatype 'n sortval = Str string | Num 'n | DateOf "'n option"

fun js_less :: "('n::linorder) sortval \<Rightarrow> 'n sortval \<Rightarrow> bool" where
  "js_less (Str a) (Str b) = (a < b)"
| "js_less (Num a) (Num b) = (a < b)"
| "js_less (DateOf (Some a)) (DateOf (Some b)) = (a < b)"
| "js_less _ _ = False"

text \<open>\<open>aVal\<close> (and \<open>bVal\<close>) of the comparator, after the two conversions.\<close>

definition sortValue :: "('n::{linorder,zero}) builtins \<Rightarrow> colref \<Rightarrow> lead \<Rightarrow> 'n sortval" where
  "sortValue rt actualColumn a =
     (let aVal = orEmpty (field a (propertyName actualColumn)) in
      if actualColumn = Named ''ID''
      then Num (case parseInt rt aVal of None \<Rightarrow> 0 | Some n \<Rightarrow> n)
      else if actualColumn = Named ''Created'' \<or> actualColumn = Named ''Follow Up''
      then DateOf (dateTime rt (js_join [dash] (rev (js_split slash aVal))))
      else Str aVal)"

definition compareLeads :: "('n::{linorder,zero}) builtins \<Rightarrow> colref \<Rightarrow> string \<Rightarrow> lead \<Rightarrow> lead \<Rightarrow> int" where
  "compareLeads rt actualColumn direction a b =
     (let aVal = sortValue rt actualColumn a; bVal = sortValue rt actualColumn b in
      if js_less aVal bVal then (if direction = ''asc'' then - 1 else 1)
      else if js_less bVal aVal then (if direction = ''asc'' then 1 else - 1)
      else 0)"

text \<open>
  \<open>Array.prototype.sort\<close> with a comparator. ECMAScript (since 2019) fixes the result
  when the comparator is consistent for the elements of the array: the elements are
  rearranged so that \<open>a\<close> comes before \<open>b\<close> whenever \<open>cmp a b < 0\<close>, and elements
  with \<open>cmp a b = 0\<close> keep their order. Consistent means that \<open>cmp a a = 0\<close>, that
  \<open>cmp a b = 0\<close> is symmetric, and that each of \<open>= 0\<close>, \<open>< 0\<close> and \<open>> 0\<close> is
  transitive. When moreover swapping the arguments swaps the sign, there is exactly one
  such rearrangement, and the stable insertion sort computes it. In every other case the
  order is the engine's.
\<close>

definition consistentOn :: "('a \<Rightarrow> 'a \<Rightarrow> int) \<Rightarrow> 'a list \<Rightarrow> bool" where
  "consistentOn cmp xs =
     list_all (\<lambda>a. cmp a a = 0 \<and>
       list_all (\<lambda>b. (cmp a b = 0 \<longrightarrow> cmp b a = 0) \<and> (cmp a b < 0 \<longleftrightarrow> cmp b a > 0) \<and>
         list_all (\<lambda>c. (cmp a b = 0 \<and> cmp b c = 0 \<longrightarrow> cmp a c = 0)
                      \<and> (cmp a b < 0 \<and> cmp b c < 0 \<longrightarrow> cmp a c < 0)
                      \<and> (cmp a b > 0 \<and> cmp b c > 0 \<longrightarrow> cmp a c > 0)) xs) xs) xs"

fun insertBy :: "('a \<Rightarrow> 'a \<Rightarrow> int) \<Rightarrow> 'a \<Rightarrow> 'a list \<Rightarrow> 'a list" where
  "insertBy cmp x [] = [x]"
| "insertBy cmp x (y # ys) = (if cmp x y > 0 then y # insertBy cmp x ys else x # y # ys)"

definition insertionSort :: "('a \<Rightarrow> 'a \<Rightarrow> int) \<Rightarrow> 'a list \<Rightarrow> 'a list" where
  "insertionSort cmp xs = foldr (insertBy cmp) xs []"

definition js_sort :: "(('a \<Rightarrow> 'a \<Rightarrow> int) \<Rightarrow> 'a list \<Rightarrow> 'a list) \<Rightarrow> ('a \<Rightarrow> 'a \<Rightarrow> int) \<Rightarrow> 'a list \<Rightarrow> 'a list" where
  "js_sort engine cmp xs = (if consistentOn cmp xs then insertionSort cmp xs else engine cmp xs)"

definition sortTable :: "('n::{linorder,zero}) builtins \<Rightarrow> string \<Rightarrow> manager \<Rightarrow> manager" where
  "sortTable rt column s =
     (let s1 = (if sortColumn s = column
                then s\<lparr>sortDirection := (if sortDirection s = ''asc'' then ''desc'' else ''asc'')\<rparr>
                else s\<lparr>sortColumn := column, sortDirection := ''asc''\<rparr>)
      in case columnMap rt column of
           None \<Rightarrow> s1
         | Some actualColumn \<Rightarrow>
             s1\<lparr>filteredLeads :=
                  js_sort (sortInconsistent rt) (compareLeads rt actualColumn (sortDirection s1))
                    (filteredLeads s1)\<rparr>)"

section \<open>Pager\<close>

text \<open>\<open>xs.slice(start, end)\<close> for integer arguments: a negative index counts from
  the end, and both ends are clamped to the array.\<close>

definition js_slice :: "'a list \<Rightarrow> int \<Rightarrow> int \<Rightarrow> 'a list" where
  "js_slice xs start end =
     (let len = int (length xs);
          k = (if start < 0 then max (len + start) 0 else min start len);
          final = (if end < 0 then max (len + end) 0 else min end len)
      in take (nat (final - k)) (drop (nat k) xs))"

text \<open>
  The rows \<open>renderTable\<close> shows. \<open>currentPage\<close> and \<open>pageSize\<close> hold integer-valued
  doubles (an integer that is no double is not a value they can take). The two bounds
  are computed exactly here; the code computes them in double precision, which only
  differs for values beyond \<open>2 ^ 53\<close>, and such a bound lies past the end of any array
  whether rounded or not.
\<close>

definition pageLeads :: "manager \<Rightarrow> lead list" where
  "pageLeads s =
     (let start = (currentPage s - 1) * pageSize s;
          end = start + pageSize s
      in js_slice (filteredLeads s) start end)"

subsection \<open>Double-precision arithmetic on integers\<close>

text \<open>
  The numbers \<open>updatePagination\<close> shows are the results of double-precision arithmetic.
  On integer-valued doubles the sum, difference and product are the exact result rounded
  to the nearest double, ties to the even significand, and an infinity when the rounded
  magnitude reaches \<open>2 ^ 1024\<close>. Every integer up to \<open>2 ^ 53\<close> in magnitude is a
  double.
\<close>

datatype jsnumber = Finite int | PosInfinity | NegInfinity | NaN

text \<open>The number of binary digits of a positive integer.\<close>

function bitLength :: "int \<Rightarrow> nat" where
  "bitLength n = (if n \<le> 0 then 0 else Suc (bitLength (n div 2)))"
  by pat_completeness auto
termination
  by (relation "measure nat") auto

definition roundDouble :: "int \<Rightarrow> jsnumber" where
  "roundDouble x =
     (let a = \<bar>x\<bar> in
      if a \<le> 2 ^ 53 then Finite x
      else
        (let e = bitLength a - 53;
             q = a div 2 ^ e;
             r = a mod 2 ^ e;
             q' = (if 2 * r > 2 ^ e \<or> (2 * r = 2 ^ e \<and> odd q) then q + 1 else q);
             m = q' * 2 ^ e
         in if m \<ge> 2 ^ 1024 then (if x < 0 then NegInfinity else PosInfinity)
            else Finite (if x < 0 then - m else m)))"

fun numAdd :: "jsnumber \<Rightarrow> jsnumber \<Rightarrow> jsnumber" where
  "numAdd (Finite x) (Finite y) = roundDouble (x + y)"
| "numAdd NaN _ = NaN"
| "numAdd _ NaN = NaN"
| "numAdd PosInfinity NegInfinity = NaN"
| "numAdd NegInfinity PosInfinity = NaN"
| "numAdd PosInfinity _ = PosInfinity"
| "numAdd _ PosInfinity = PosInfinity"
| "numAdd NegInfinity _ = NegInfinity"
| "numAdd _ NegInfinity = NegInfinity"

fun numNeg :: "jsnumber \<Rightarrow> jsnumber" where
  "numNeg (Finite x) = Finite (- x)"
| "numNeg PosInfinity = NegInfinity"
| "numNeg NegInfinity = PosInfinity"
| "numNeg NaN = NaN"

definition numSub :: "jsnumber \<Rightarrow> jsnumber \<Rightarrow> jsnumber" where
  "numSub a b = numAdd a (numNeg b)"

text \<open>The sign of a number that is not NaN: \<open>- 1\<close>, \<open>0\<close> or \<open>1\<close>.\<close>

fun numSign :: "jsnumber \<Rightarrow> int" where
  "numSign (Finite x) = sgn x"
| "numSign PosInfinity = 1"
| "numSign NegInfinity = - 1"
| "numSign NaN = 0"

fun numMul :: "jsnumber \<Rightarrow> jsnumber \<Rightarrow> jsnumber" where
  "numMul (Finite x) (Finite y) = roundDouble (x * y)"
| "numMul NaN _ = NaN"
| "numMul _ NaN = NaN"
| "numMul a b =
     (if numSign a * numSign b = 0 then NaN
      else if numSign a * numSign b > 0 then PosInfinity else NegInfinity)"

text \<open>\<open>Math.min\<close> of two numbers.\<close>

fun numMin :: "jsnumber \<Rightarrow> jsnumber \<Rightarrow> jsnumber" where
  "numMin NaN _ = NaN"
| "numMin _ NaN = NaN"
| "numMin NegInfinity _ = NegInfinity"
| "numMin _ NegInfinity = NegInfinity"
| "numMin PosInfinity b = b"
| "numMin a PosInfinity = a"
| "numMin (Finite x) (Finite y) = Finite (min x y)"

text \<open>The range and total \<open>updatePagination\<close> writes: \<open>(start, end, totalCount)\<close>.\<close>

definition updatePagination :: "manager \<Rightarrow> jsnumber \<times> jsnumber \<times> int" where
  "updatePagination s =
     (let totalCount = int (length (filteredLeads s));
          start = numAdd (numMul (numSub (Finite (currentPage s)) (Finite 1)) (Finite (pageSize s)))
                    (Finite 1);
          end = numMin (numSub (numAdd start (Finite (pageSize s))) (Finite 1)) (Finite totalCount)
      in (start, end, totalCount))"

section \<open>Merging as the specification words it\<close>

text \<open>
  The merge as the specification's sentence reads when "existing record" means a record
  of the collection the import started from: an incoming record is dropped when
  \<open>skipDuplicates\<close> holds and its \<open>ID\<close> is the \<open>ID\<close> of such a record, and appended
  otherwise. The result is the merged collection with the imported and skipped counts.
\<close>

definition mergeAsStated :: "bool \<Rightarrow> lead list \<Rightarrow> lead list \<Rightarrow> lead list \<times> nat \<times> nat" where
  "mergeAsStated skipDuplicates collection incoming =
     (let dropped = (\<lambda>l. skipDuplicates \<and> field l ''ID'' \<in> (\<lambda>e. field e ''ID'') ` set collection)
      in (collection @ filter (\<lambda>l. \<not> dropped l) incoming,
          length (filter (\<lambda>l. \<not> dropped l) incoming),
          length (filter dropped incoming)))"

text \<open>
  The incoming records, in their order, whose \<open>ID\<close> is neither the \<open>ID\<close> of a record
  of the collection nor the \<open>ID\<close> of an earlier incoming record.
\<close>

definition keptIncoming :: "lead list \<Rightarrow> lead list \<Rightarrow> lead list" where
  "keptIncoming collection incoming =
     map (\<lambda>i. incoming ! i)
       (filter (\<lambda>i. field (incoming ! i) ''ID''
                  \<notin> (\<lambda>e. field e ''ID'') ` (set collection \<union> set (take i incoming)))
          [0..<length incoming])"

section \<open>Sample inputs\<close>

text \<open>
  A sample engine for inconsistent comparators. It sorts as V8 sorts an array of fewer
  than 64 elements, whatever the comparator: it takes the longest run at the start of the
  array (ascending, or strictly descending, which it reverses) and then inserts each
  later element into the ordered part by binary search, behind the elements it does not
  compare less than. Longer arrays V8 cuts into several such runs and merges them; the
  sample engine treats them as one run too.
\<close>

fun ascendingRun :: "('a \<Rightarrow> 'a \<Rightarrow> int) \<Rightarrow> 'a \<Rightarrow> 'a list \<Rightarrow> 'a list \<times> 'a list" where
  "ascendingRun cmp previous [] = ([], [])"
| "ascendingRun cmp previous (x # xs) =
     (if cmp x previous < 0 then ([], x # xs)
      else (case ascendingRun cmp x xs of (run, rest) \<Rightarrow> (x # run, rest)))"

fun descendingRun :: "('a \<Rightarrow> 'a \<Rightarrow> int) \<Rightarrow> 'a \<Rightarrow> 'a list \<Rightarrow> 'a list \<times> 'a list" where
  "descendingRun cmp previous [] = ([], [])"
| "descendingRun cmp previous (x # xs) =
     (if cmp x previous \<ge> 0 then ([], x # xs)
      else (case descendingRun cmp x xs of (run, rest) \<Rightarrow> (x # run, rest)))"

definition countAndMakeRun :: "('a \<Rightarrow> 'a \<Rightarrow> int) \<Rightarrow> 'a list \<Rightarrow> 'a list \<times> 'a list" where
  "countAndMakeRun cmp xs =
     (case xs of
        [] \<Rightarrow> ([], [])
      | [a] \<Rightarrow> ([a], [])
      | a # b # rest \<Rightarrow>
          if cmp b a < 0
          then (case descendingRun cmp b rest of (run, rest') \<Rightarrow> (rev (a # b # run), rest'))
          else (case ascendingRun cmp b rest of (run, rest') \<Rightarrow> (a # b # run, rest')))"

function insertionPoint :: "('a \<Rightarrow> 'a \<Rightarrow> int) \<Rightarrow> 'a \<Rightarrow> 'a list \<Rightarrow> nat \<Rightarrow> nat \<Rightarrow> nat" where
  "insertionPoint cmp pivot ordered left right =
     (if left < right
      then (let mid = left + (right - left) div 2 in
            if cmp pivot (ordered ! mid) < 0
            then insertionPoint cmp pivot ordered left mid
            else insertionPoint cmp pivot ordered (mid + 1) right)
      else left)"
  by pat_completeness auto
termination
  by (relation "measure (\<lambda>(cmp, pivot, ordered, left, right). right - left)") auto

definition binaryInsert :: "('a \<Rightarrow> 'a \<Rightarrow> int) \<Rightarrow> 'a list \<Rightarrow> 'a \<Rightarrow> 'a list" where
  "binaryInsert cmp ordered pivot =
     (let left = insertionPoint cmp pivot ordered 0 (length ordered)
      in take left ordered @ pivot # drop left ordered)"

definition runThenInsert :: "('a \<Rightarrow> 'a \<Rightarrow> int) \<Rightarrow> 'a list \<Rightarrow> 'a list" where
  "runThenInsert cmp xs =
     (case countAndMakeRun cmp xs of
        (run, rest) \<Rightarrow> fold (\<lambda>pivot ordered. binaryInsert cmp ordered pivot) rest run)"

text \<open>A run time that knows two numbers and two dates, and filter settings.\<close>

definition sampleRuntime :: "int builtins" where
  "sampleRuntime =
     \<lparr>parseInt = (\<lambda>s. if s = ''1'' then Some 1 else if s = ''2'' then Some 2 else None),
      dateTime = (\<lambda>s. if s = ''2024-01-03'' then Some 3
                        else if s = ''2024-01-01'' then Some 1 else None),
      toDateString = (\<lambda>d. case d of None \<Rightarrow> ''Invalid Date''
                        | Some n \<Rightarrow> (if n = 3 then ''Wed Jan 03 2024'' else ''Mon Jan 01 2024'')),
      nativeText = (\<lambda>name. ''function '' @ (if name = ''constructor'' then ''Object'' else name)
                        @ ''() { [native code] }''),
      sortInconsistent = runThenInsert\<rparr>"

definition noFilters :: filters where
  "noFilters = \<lparr>searchInput = [], stageFilter = [], sourceFilter = [],
     responsibleFilter = [], dateFilter = []\<rparr>"

definition dateOnly :: filters where
  "dateOnly = noFilters\<lparr>dateFilter := ''2024-01-03''\<rparr>"

text \<open>Three records for the sort examples: two with a date, one without.\<close>

definition leadJan3 :: lead where
  "leadJan3 = [(''ID'', ''1''), (''Created'', ''03/01/2024'')]"

definition leadNoDate :: lead where
  "leadNoDate = [(''ID'', ''2'')]"

definition leadJan1 :: lead where
  "leadJan1 = [(''ID'', ''3''), (''Created'', ''01/01/2024'')]"

text \<open>Two records with a field named \<open>[object Object]\<close>.\<close>

definition objectLeadB :: lead where
  "objectLeadB = [(''ID'', ''1''), (''[object Object]'', ''b'')]"

definition objectLeadA :: lead where
  "objectLeadA = [(''ID'', ''2''), (''[object Object]'', ''a'')]"

text \<open>Records for the CSV examples: two plain ones, one whose value ends in a double
  quote, one whose value starts with a space, and one with a comma in a field name.\<close>

definition sampleLeads :: "lead list" where
  "sampleLeads =
     [[(''ID'', ''1''), (''Lead Name'', ''Smith, Ann'')],
      [(''ID'', ''2''), (''Lead Name'', '''')]]"

definition inchLead :: lead where
  "inchLead = [(''Lead Name'', [CHR ''6'', dquote])]"

definition paddedLead :: lead where
  "paddedLead = [(''Lead Name'', '' Ann'')]"

definition commaLead :: lead where
  "commaLead = [(''Name, first'', ''Ann'')]"

section \<open>Filtering\<close>

lemma filterThrowing_throws:
  "x \<in> set xs \<Longrightarrow> p x = Inl e \<Longrightarrow> \<exists>e'. filterThrowing p xs = Inl e'"
  by (induction xs) (auto split: sum.splits)

lemma matchesLead_missing_Created:
  "dateFilter f \<noteq> [] \<Longrightarrow> field lead ''Created'' = None \<Longrightarrow> matchesLead rt f lead = Inl TypeError"
  unfolding matchesLead_def Let_def by simp

text \<open>
  C2. The specification asks that a record without \<open>Created\<close> be treated as
  non-matching, without an error, when a date filter is active. The code reads
  \<open>lead.Created.split\<close> unguarded: as soon as the collection holds one record without
  \<open>Created\<close> and the date filter is not empty, \<open>filterLeads\<close> throws a \<open>TypeError\<close> and
  the manager keeps its previous view.
\<close>

theorem filterLeads_missing_Created_throws:
  assumes "dateFilter f \<noteq> []" and "lead \<in> set (leads s)" and "field lead ''Created'' = None"
  shows "filterLeads rt f s = Inl (TypeError, s)"
proof -
  from assms have m: "matchesLead rt f lead = Inl TypeError"
    by (simp add: matchesLead_missing_Created)
  from filterThrowing_throws [of lead "leads s" "matchesLead rt f" TypeError, OF assms(2) m]
  obtain e where e: "filterThrowing (matchesLead rt f) (leads s) = Inl e" ..
  have "e = TypeError" by (cases e) simp
  with e show ?thesis by (simp add: filterLeads_def)
qed

theorem filterLeads_missing_Created_throws_witness:
  "dateFilter dateOnly \<noteq> []
   \<and> [(''ID'', ''1'')] \<in> set (leads (constructed\<lparr>leads := [[(''ID'', ''1'')]]\<rparr>))
   \<and> field [(''ID'', ''1'')] ''Created'' = None
   \<and> filterLeads sampleRuntime dateOnly (constructed\<lparr>leads := [[(''ID'', ''1'')]]\<rparr>)
      = Inl (TypeError, constructed\<lparr>leads := [[(''ID'', ''1'')]]\<rparr>)"
proof -
  have a: "dateFilter dateOnly \<noteq> []" by (simp add: dateOnly_def noFilters_def)
  have b: "[(''ID'', ''1'')] \<in> set (leads (constructed\<lparr>leads := [[(''ID'', ''1'')]]\<rparr>))" by simp
  have c: "field [(''ID'', ''1'')] ''Created'' = None" by (simp add: field_def)
  note d = filterLeads_missing_Created_throws [OF a b c, of sampleRuntime]
  show ?thesis using a b c d by (intro conjI)
qed

section \<open>Page position\<close>

text \<open>
  C3 (as amended). A filter operation that completes sets the current page to 1. A sort
  operation does not assign the current page: it leaves it as it was.
\<close>

theorem page_after_filter_and_sort:
  "(filterLeads rt f s = Inr s' \<longrightarrow> currentPage s' = 1)
   \<and> currentPage (sortTable rt column s) = currentPage s"
proof
  show "filterLeads rt f s = Inr s' \<longrightarrow> currentPage s' = 1"
    by (auto simp: filterLeads_def split: sum.splits)
  show "currentPage (sortTable rt column s) = currentPage s"
    by (simp add: sortTable_def Let_def split: option.splits)
qed

text \<open>C3 as stated fails for sorting: from page 2, sorting by \<open>sort-id\<close> stays on
  page 2.\<close>

theorem sort_keeps_page_counterexample:
  "currentPage (sortTable sampleRuntime ''sort-id'' (constructed\<lparr>currentPage := 2\<rparr>)) \<noteq> 1"
  by (simp add: sortTable_def Let_def split: option.splits)

lemma filterLeads_no_leads:
  "leads s = [] \<Longrightarrow> filterLeads rt f s = Inr (s\<lparr>filteredLeads := [], currentPage := 1\<rparr>)"
  by (simp add: filterLeads_def)

theorem page_after_filter_and_sort_witness:
  "filterLeads sampleRuntime noFilters (constructed\<lparr>currentPage := 2\<rparr>) = Inr constructed
   \<and> currentPage constructed = 1
   \<and> currentPage (sortTable sampleRuntime ''sort-id'' (constructed\<lparr>currentPage := 2\<rparr>)) = 2"
proof -
  have a: "filterLeads sampleRuntime noFilters (constructed\<lparr>currentPage := 2\<rparr>) = Inr constructed"
    by (simp add: filterLeads_no_leads constructed_def)
  from page_after_filter_and_sort [of sampleRuntime noFilters "constructed\<lparr>currentPage := 2\<rparr>" constructed "''sort-id''"] a
  show ?thesis by simp
qed

section \<open>Sorting with an unknown column key\<close>



text \<open>
  The names of the members of \<open>Object.prototype\<close> are not unknown to the look-up: it
  finds the inherited member, and the view is sorted by the field that the member names
  when converted to a string. Under \<open>__proto__\<close> that field is \<open>[object Object]\<close>.
\<close>

lemma sortTable_inherited_key:
  "columnMap sampleRuntime ''__proto__'' = Some (Member ''[object Object]'')
   \<and> filteredLeads (sortTable sampleRuntime ''__proto__''
        (constructed\<lparr>filteredLeads := [objectLeadB, objectLeadA]\<rparr>))
      = [objectLeadA, objectLeadB]"
proof -
  have k: "columnMap sampleRuntime ''__proto__'' = Some (Member ''[object Object]'')"
    by (simp add: columnMap_def columnTable_def)
  have v: "sortValue sampleRuntime (Member ''[object Object]'') objectLeadB = Str ''b''"
    "sortValue sampleRuntime (Member ''[object Object]'') objectLeadA = Str ''a''"
    by (simp_all add: sortValue_def propertyName_def field_def orEmpty_def
        objectLeadA_def objectLeadB_def)
  have "filteredLeads (sortTable sampleRuntime ''__proto__''
        (constructed\<lparr>filteredLeads := [objectLeadB, objectLeadA]\<rparr>))
      = js_sort runThenInsert (compareLeads sampleRuntime (Member ''[object Object]'') ''asc'')
          [objectLeadB, objectLeadA]"
    by (simp add: sortTable_def k constructed_def) (simp add: sampleRuntime_def)
  also have "\<dots> = [objectLeadA, objectLeadB]"
    by (simp add: js_sort_def consistentOn_def insertionSort_def compareLeads_def v)
  finally show ?thesis using k by simp
qed

section \<open>Loading\<close>

text \<open>
  C9. When nothing is stored, or when the stored text cannot be parsed, the manager
  built by the constructor holds an empty collection (and an empty view); a stored text
  that cannot be parsed empties the collection of any manager. \<open>loadStoredLeads\<close> has
  no throwing outcome: its \<open>catch\<close> covers the parse.
\<close>

theorem loadStoredLeads_absent_or_malformed:
  assumes "stored = None \<or> (\<exists>t. stored = Some t \<and> parse t = None)"
  shows "leads (newManager parse stored) = [] \<and> filteredLeads (newManager parse stored) = []
    \<and> (\<forall>t s. stored = Some t \<and> t \<noteq> [] \<longrightarrow>
          leads (loadStoredLeads parse stored s) = [] \<and> filteredLeads (loadStoredLeads parse stored s) = [])"
  using assms by (auto simp: newManager_def loadStoredLeads_def constructed_def split: option.splits)

theorem loadStoredLeads_absent_or_malformed_witness:
  "leads (newManager (\<lambda>t. None) None) = []
   \<and> leads (newManager (\<lambda>t. None) (Some ''{oops'')) = []
   \<and> leads (loadStoredLeads (\<lambda>t. None) (Some ''{oops'') (constructed\<lparr>leads := [[(''ID'', ''1'')]]\<rparr>)) = []"
  using loadStoredLeads_absent_or_malformed [of None "\<lambda>t. None"]
    loadStoredLeads_absent_or_malformed [of "Some ''{oops''" "\<lambda>t. None"]
  by simp

section \<open>Deleting\<close>

text \<open>
  C6. After a confirmed delete the collection consists of exactly the records at the
  positions whose stored \<open>ID\<close> is not the very string \<open>ident\<close>, in their previous
  order, whether or not the following re-filter throws; a declined delete changes
  nothing. The comparison is on the stored strings: \<open>''01''\<close> is not \<open>''1''\<close>.
\<close>

theorem deleteLead_removes_matching:
  "leads (finalState (deleteLead rt f ident True s))
     = nths (leads s) {i. i < length (leads s) \<and> field (leads s ! i) ''ID'' \<noteq> Some ident}
   \<and> leads (finalState (deleteLead rt f ident False s)) = leads s"
  by (auto simp: deleteLead_def finalState_def filterLeads_def filter_eq_nths split: sum.splits)

theorem deleteLead_removes_matching_witness:
  "leads (finalState (deleteLead sampleRuntime noFilters ''1'' True
      (constructed\<lparr>leads := [[(''ID'', ''1'')], [(''ID'', ''01'')], [(''ID'', ''1''), (''Stage'', ''NEW'')]]\<rparr>)))
    = [[(''ID'', ''01'')]]"
proof -
  let ?ls = "[[(''ID'', ''1'')], [(''ID'', ''01'')], [(''ID'', ''1''), (''Stage'', ''NEW'')]] :: lead list"
  have "leads (finalState (deleteLead sampleRuntime noFilters ''1'' True (constructed\<lparr>leads := ?ls\<rparr>)))
      = nths ?ls {i. i < length ?ls \<and> field (?ls ! i) ''ID'' \<noteq> Some ''1''}"
    using deleteLead_removes_matching [of sampleRuntime noFilters "''1''" "constructed\<lparr>leads := ?ls\<rparr>"]
    by simp
  also have "\<dots> = filter (\<lambda>l. field l ''ID'' \<noteq> Some ''1'') ?ls"
    by (simp only: filter_eq_nths)
  also have "\<dots> = [[(''ID'', ''01'')]]"
    by (simp add: field_def)
  finally show ?thesis .
qed

section \<open>Paging\<close>

lemma js_slice_window:
  assumes "0 \<le> k" and "0 \<le> n"
  shows "js_slice xs k (k + n) = take (nat n) (drop (nat k) xs)"
proof (cases "k \<le> int (length xs)")
  case True
  show ?thesis
  proof (cases "k + n \<le> int (length xs)")
    case True
    with assms \<open>k \<le> int (length xs)\<close> show ?thesis
      by (simp add: js_slice_def Let_def min_def)
  next
    case False
    with assms \<open>k \<le> int (length xs)\<close> have "nat (int (length xs) - k) = length xs - nat k"
      and "length xs - nat k \<le> nat n" by linarith+
    with assms \<open>k \<le> int (length xs)\<close> False show ?thesis
      by (simp add: js_slice_def Let_def min_def)
  qed
next
  case False
  with assms show ?thesis
    by (simp add: js_slice_def Let_def min_def)
qed

lemma window_positions:
  assumes "0 \<le> k" and "0 \<le> n"
  shows "take (nat n) (drop (nat k) xs)
       = map (\<lambda>i. xs ! nat (i - 1)) [k + 1..min (k + n) (int (length xs))]"
proof (rule nth_equalityI)
  show "length (take (nat n) (drop (nat k) xs))
      = length (map (\<lambda>i. xs ! nat (i - 1)) [k + 1..min (k + n) (int (length xs))])"
    using assms by (simp add: min_def) linarith
next
  fix i assume "i < length (take (nat n) (drop (nat k) xs))"
  then have i: "i < nat n" "nat k + i < length xs" by auto
  with assms have b: "k + 1 + int i \<le> min (k + n) (int (length xs))" by linarith
  from i have "take (nat n) (drop (nat k) xs) ! i = xs ! (nat k + i)" by simp
  moreover have "map (\<lambda>i. xs ! nat (i - 1)) [k + 1..min (k + n) (int (length xs))] ! i
      = xs ! nat (k + 1 + int i - 1)"
  proof -
    from b have "i < nat (min (k + n) (int (length xs)) - (k + 1) + 1)" by linarith
    then have "i < length [k + 1..min (k + n) (int (length xs))]" by (simp only: length_upto)
    then have "map (\<lambda>i. xs ! nat (i - 1)) [k + 1..min (k + n) (int (length xs))] ! i
        = xs ! nat ([k + 1..min (k + n) (int (length xs))] ! i - 1)"
      by (rule nth_map)
    with nth_upto [OF b] show ?thesis by simp
  qed
  moreover from assms have "nat (k + 1 + int i - 1) = nat k + i" by linarith
  ultimately show "take (nat n) (drop (nat k) xs) ! i
      = map (\<lambda>i. xs ! nat (i - 1)) [k + 1..min (k + n) (int (length xs))] ! i"
    by simp
qed

lemma pages_exhausted:
  assumes "1 \<le> (n::int)" and "(len + n - 1) div n < p"
  shows "len \<le> (p - 1) * n"
proof -
  from assms have "(len + n - 1) div n + 1 \<le> p" by simp
  with assms(1) have "((len + n - 1) div n + 1) * n \<le> p * n" by (simp add: mult_right_mono)
  moreover have "len + n - 1 < ((len + n - 1) div n + 1) * n"
  proof -
    define a where "a = len + n - 1"
    have "a mod n < n" using assms(1) by simp
    moreover have "a = n * (a div n) + a mod n" by simp
    ultimately have "a < n * (a div n) + n" by linarith
    then show ?thesis unfolding a_def by (simp add: algebra_simps)
  qed
  ultimately have "len + n - 1 < p * n" by simp
  then show ?thesis by (simp add: algebra_simps)
qed

lemma roundDouble_safe: "\<bar>x\<bar> \<le> 2 ^ 53 \<Longrightarrow> roundDouble x = Finite x"
  by (simp add: roundDouble_def)

lemma updatePagination_safe:
  assumes "1 \<le> currentPage s" and "1 \<le> pageSize s"
    and "currentPage s * pageSize s < 2 ^ 53"
  shows "updatePagination s =
    (Finite ((currentPage s - 1) * pageSize s + 1),
     Finite (min ((currentPage s - 1) * pageSize s + 1 + pageSize s - 1) (int (length (filteredLeads s)))),
     int (length (filteredLeads s)))"
proof -
  define n where "n = pageSize s"
  define k where "k = (currentPage s - 1) * pageSize s"
  have kn: "k + n = currentPage s * pageSize s" by (simp add: k_def n_def algebra_simps)
  have k0: "0 \<le> k" using assms(1,2) by (simp add: k_def)
  have n1: "1 \<le> n" using assms(2) by (simp add: n_def)
  have b: "k + n < 2 ^ 53" using assms(3) kn by simp
  have p: "currentPage s \<le> k + n"
    unfolding kn using assms(1,2) mult_left_mono [of 1 "pageSize s" "currentPage s"] by simp
  have 1: "numSub (Finite (currentPage s)) (Finite 1) = Finite (currentPage s - 1)"
    using assms(1) p b by (simp add: numSub_def roundDouble_safe)
  have 2: "numMul (Finite (currentPage s - 1)) (Finite (pageSize s)) = Finite k"
    using k0 n1 b by (simp add: roundDouble_safe k_def [symmetric])
  have 3: "numAdd (Finite k) (Finite 1) = Finite (k + 1)"
    using k0 n1 b by (simp add: roundDouble_safe)
  have 4: "numAdd (Finite (k + 1)) (Finite (pageSize s)) = Finite (k + 1 + n)"
    using k0 n1 b by (simp add: roundDouble_safe n_def [symmetric])
  have 5: "numSub (Finite (k + 1 + n)) (Finite 1) = Finite (k + 1 + n - 1)"
    using k0 n1 b by (simp add: numSub_def roundDouble_safe)
  have start: "numAdd (numMul (numSub (Finite (currentPage s)) (Finite 1)) (Finite (pageSize s)))
      (Finite 1) = Finite (k + 1)"
    by (simp only: 1 2 3)
  have "updatePagination s
      = (Finite (k + 1), numMin (Finite (k + 1 + n - 1)) (Finite (int (length (filteredLeads s)))),
         int (length (filteredLeads s)))"
    by (simp only: updatePagination_def Let_def start 4 5)
  then show ?thesis by (simp add: k_def n_def)
qed

text \<open>
  C7 (as amended). For a page number and a page size of at least 1, the rows shown are
  the records of the view at the positions \<open>rangeStart = (pageNumber - 1) * pageSize + 1\<close>
  to \<open>rangeEnd = min (rangeStart + pageSize - 1) total\<close>, counted from 1, where \<open>total\<close>
  is the length of the view, and a page number beyond the last page gives no rows. When
  moreover \<open>pageNumber * pageSize\<close> is below \<open>2 ^ 53\<close>, \<open>updatePagination\<close> reports
  exactly \<open>rangeStart\<close>, \<open>rangeEnd\<close> and \<open>total\<close>. Both functions are total: nothing is
  thrown.
\<close>

theorem page_range_and_items:
  assumes "1 \<le> currentPage s" and "1 \<le> pageSize s"
  shows "(let total = int (length (filteredLeads s));
              rangeStart = (currentPage s - 1) * pageSize s + 1;
              rangeEnd = min (rangeStart + pageSize s - 1) total
          in (currentPage s * pageSize s < 2 ^ 53 \<longrightarrow>
                updatePagination s = (Finite rangeStart, Finite rangeEnd, total))
           \<and> pageLeads s = map (\<lambda>i. filteredLeads s ! nat (i - 1)) [rangeStart..rangeEnd]
           \<and> ((total + pageSize s - 1) div pageSize s < currentPage s \<longrightarrow> pageLeads s = []))"
proof -
  let ?xs = "filteredLeads s"
  let ?len = "int (length ?xs)"
  define k where "k = (currentPage s - 1) * pageSize s"
  define n where "n = pageSize s"
  have k0: "0 \<le> k" and n0: "0 \<le> n" using assms by (simp_all add: k_def n_def)
  have sl: "pageLeads s = take (nat n) (drop (nat k) ?xs)"
    using js_slice_window [OF k0 n0, of ?xs] by (simp add: pageLeads_def Let_def k_def n_def)
  have items: "pageLeads s = map (\<lambda>i. ?xs ! nat (i - 1)) [k + 1..min (k + 1 + n - 1) ?len]"
    using window_positions [OF k0 n0, of ?xs] sl by simp
  have empty: "(?len + n - 1) div n < currentPage s \<longrightarrow> pageLeads s = []"
  proof
    assume "(?len + n - 1) div n < currentPage s"
    with assms(2) have "?len \<le> k" unfolding k_def n_def by (intro pages_exhausted)
    with k0 show "pageLeads s = []" by (simp add: sl)
  qed
  have upd: "currentPage s * pageSize s < 2 ^ 53 \<longrightarrow>
      updatePagination s = (Finite (k + 1), Finite (min (k + 1 + n - 1) ?len), ?len)"
    using updatePagination_safe [OF assms] by (simp add: k_def n_def)
  show ?thesis
    unfolding Let_def using items empty upd unfolding k_def n_def by simp
qed

text \<open>
  C7 as stated fails beyond the integers that double precision holds exactly: on page 2
  with a page size of \<open>2 ^ 53\<close> the range start \<open>(2 - 1) * 2 ^ 53 + 1\<close> is
  \<open>9007199254740993\<close>, and \<open>updatePagination\<close> reports \<open>9007199254740992\<close>.
\<close>

theorem page_range_counterexample:
  "updatePagination (constructed\<lparr>currentPage := 2, pageSize := 2 ^ 53\<rparr>)
     = (Finite 9007199254740992, Finite 0, 0)
   \<and> (2 - 1) * 2 ^ 53 + 1 = (9007199254740993 :: int)"
  by (simp add: updatePagination_def constructed_def numSub_def roundDouble_def Let_def)

theorem page_range_and_items_witness:
  "1 \<le> currentPage (constructed\<lparr>filteredLeads := replicate 25 [(''ID'', ''1'')], currentPage := 3\<rparr>)
   \<and> 1 \<le> pageSize (constructed\<lparr>filteredLeads := replicate 25 [(''ID'', ''1'')], currentPage := 3\<rparr>)
   \<and> updatePagination (constructed\<lparr>filteredLeads := replicate 25 [(''ID'', ''1'')], currentPage := 3\<rparr>)
       = (Finite 21, Finite 25, 25)
   \<and> length (pageLeads (constructed\<lparr>filteredLeads := replicate 25 [(''ID'', ''1'')], currentPage := 3\<rparr>)) = 5
   \<and> pageLeads (constructed\<lparr>filteredLeads := replicate 25 [(''ID'', ''1'')], currentPage := 4\<rparr>) = []"
proof -
  let ?s = "constructed\<lparr>filteredLeads := replicate 25 [(''ID'', ''1'')], currentPage := 3\<rparr>"
  let ?t = "constructed\<lparr>filteredLeads := replicate 25 [(''ID'', ''1'')], currentPage := 4\<rparr>"
  have a: "1 \<le> currentPage ?s" "1 \<le> pageSize ?s" "1 \<le> currentPage ?t" "1 \<le> pageSize ?t"
    by (simp_all add: constructed_def)
  from page_range_and_items [OF a(1,2)] have "updatePagination ?s = (Finite 21, Finite 25, 25)"
    and "length (pageLeads ?s) = 5"
    by (simp_all add: Let_def constructed_def)
  moreover from page_range_and_items [OF a(3,4)] have "pageLeads ?t = []"
    by (simp add: Let_def constructed_def)
  ultimately show ?thesis using a by simp
qed

section \<open>Parsing CSV\<close>

lemma parseCSV_rows_eq:
  "parseCSV_rows headers ls
     = map (\<lambda>l. makeRow headers (parseCSVLine l))
         (filter (\<lambda>l. length (parseCSVLine l) = length headers) ls)"
  by (induction ls) (simp_all add: Let_def)

text \<open>
  C8. With the non-blank lines of the input, the first being the header: with fewer than
  two of them the result is empty; otherwise the result consists of one row for each
  later line whose quote-aware field count equals the number of comma-separated header
  fields, in order, and of nothing else, so its length is the number of such lines.
\<close>

theorem parseCSV_keeps_matching_arity:
  "(let lines = csvLines csv;
        arity = length (js_split comma (hd lines));
        accepted = filter (\<lambda>l. length (parseCSVLine l) = arity) (tl lines)
    in (length lines < 2 \<longrightarrow> parseCSV csv = [])
     \<and> (2 \<le> length lines \<longrightarrow>
          parseCSV csv = map (\<lambda>l. makeRow (csvHeaders (hd lines)) (parseCSVLine l)) accepted
        \<and> length (parseCSV csv) = length accepted))"
  by (simp add: Let_def parseCSV_def parseCSV_rows_eq csvHeaders_def)

theorem parseCSV_keeps_matching_arity_witness:
  "csvLines ''a,b\<newline>1,2\<newline>\<newline>3\<newline>4,5,6\<newline>\"7,8\",9''
     = [''a,b'', ''1,2'', ''3'', ''4,5,6'', ''\"7,8\",9'']
   \<and> parseCSV ''a,b\<newline>1,2\<newline>\<newline>3\<newline>4,5,6\<newline>\"7,8\",9''
     = [[(''a'', ''1''), (''b'', ''2'')], [(''a'', ''7,8''), (''b'', ''9'')]]"
proof -
  let ?csv = "''a,b\<newline>1,2\<newline>\<newline>3\<newline>4,5,6\<newline>\"7,8\",9''"
  have l: "csvLines ?csv = [''a,b'', ''1,2'', ''3'', ''4,5,6'', ''\"7,8\",9'']"
    by (simp add: csvLines_def js_trim_def isSpace_def)
  from parseCSV_keeps_matching_arity [of ?csv]
  have "parseCSV ?csv = map (\<lambda>l. makeRow (csvHeaders ''a,b'') (parseCSVLine l))
          (filter (\<lambda>l. length (parseCSVLine l) = length (js_split comma ''a,b''))
             [''1,2'', ''3'', ''4,5,6'', ''\"7,8\",9''])"
    unfolding l Let_def by simp
  also have "\<dots> = [[(''a'', ''1''), (''b'', ''2'')], [(''a'', ''7,8''), (''b'', ''9'')]]"
    by (simp add: parseCSVLine_def csvHeaders_def makeRow_def assignField_def js_trim_def
        isSpace_def stripQuotes_def orEmpty_def arrayGet_def upt_rec)
  finally show ?thesis using l by simp
qed

section \<open>Merging on import\<close>

lemma keptIncoming_snoc:
  "keptIncoming ls (xs @ [x])
     = keptIncoming ls xs
       @ (if field x ''ID'' \<in> (\<lambda>e. field e ''ID'') ` (set ls \<union> set xs) then [] else [x])"
proof -
  let ?F = "\<lambda>e. field e ''ID''"
  let ?P = "\<lambda>ys i. ?F (ys ! i) \<notin> ?F ` (set ls \<union> set (take i ys))"
  have f: "filter (?P (xs @ [x])) [0..<length xs] = filter (?P xs) [0..<length xs]"
    by (rule filter_cong) (simp_all add: nth_append)
  have m: "map (\<lambda>i. (xs @ [x]) ! i) (filter (?P xs) [0..<length xs])
         = map (\<lambda>i. xs ! i) (filter (?P xs) [0..<length xs])"
    by (rule map_cong) (simp_all add: nth_append)
  show ?thesis
    unfolding keptIncoming_def using f m by simp
qed

lemma keptIncoming_ids:
  "(\<lambda>e. field e ''ID'') ` (set ls \<union> set (keptIncoming ls xs))
     = (\<lambda>e. field e ''ID'') ` (set ls \<union> set xs)"
proof (induction xs rule: rev_induct)
  case Nil
  show ?case by (simp add: keptIncoming_def)
next
  case (snoc x xs)
  then show ?case
    by (auto simp: keptIncoming_snoc image_Un)
qed

lemma length_keptIncoming: "length (keptIncoming ls xs) \<le> length xs"
proof -
  have "length (keptIncoming ls xs) \<le> length [0..<length xs]"
    unfolding keptIncoming_def length_map by (rule length_filter_le)
  then show ?thesis by simp
qed

lemma importLoop_snoc:
  "importLoop skip (xs @ [x]) ls = importStep skip x (importLoop skip xs ls)"
  by (simp add: importLoop_def)

lemma list_ex_same_key:
  "list_ex (\<lambda>existing. F existing = F x) (ls @ ks) \<longleftrightarrow> F x \<in> F ` (set ls \<union> set ks)"
  unfolding list_ex_iff image_iff set_append by (rule bex_cong [OF refl]) (rule eq_commute)

lemma importLoop_skipping:
  "importLoop True xs ls
     = (ls @ keptIncoming ls xs, length (keptIncoming ls xs), length xs - length (keptIncoming ls xs))"
proof (induction xs rule: rev_induct)
  case Nil
  show ?case by (simp add: importLoop_def keptIncoming_def)
next
  case (snoc x xs)
  let ?F = "\<lambda>e. field e ''ID''"
  let ?K = "keptIncoming ls xs"
  have "list_ex (\<lambda>existing. ?F existing = ?F x) (ls @ ?K)
       \<longleftrightarrow> ?F x \<in> ?F ` (set ls \<union> set ?K)"
    by (rule list_ex_same_key)
  also have "\<dots> \<longleftrightarrow> ?F x \<in> ?F ` (set ls \<union> set xs)"
    by (simp only: keptIncoming_ids)
  finally have t: "list_ex (\<lambda>existing. ?F existing = ?F x) (ls @ ?K)
       \<longleftrightarrow> ?F x \<in> ?F ` (set ls \<union> set xs)" .
  have le: "length ?K \<le> length xs" by (rule length_keptIncoming)
  show ?case
  proof (cases "?F x \<in> ?F ` (set ls \<union> set xs)")
    case True
    with t have "importStep True x (ls @ ?K, length ?K, length xs - length ?K)
        = (ls @ ?K, length ?K, length xs - length ?K + 1)"
      by (simp only: importStep_def prod.case simp_thms if_True)
    moreover from True have "keptIncoming ls (xs @ [x]) = ?K"
      by (simp only: keptIncoming_snoc if_True append_Nil2)
    ultimately show ?thesis
      unfolding importLoop_snoc snoc.IH using le by simp
  next
    case False
    with t have "importStep True x (ls @ ?K, length ?K, length xs - length ?K)
        = ((ls @ ?K) @ [x], length ?K + 1, length xs - length ?K)"
      by (simp only: importStep_def prod.case simp_thms if_False)
    moreover from False have "keptIncoming ls (xs @ [x]) = ?K @ [x]"
      by (simp only: keptIncoming_snoc if_False)
    ultimately show ?thesis
      unfolding importLoop_snoc snoc.IH using le by simp
  qed
qed

lemma importLoop_appending:
  "importLoop False xs ls = (ls @ xs, length xs, 0)"
  by (induction xs rule: rev_induct) (simp_all add: importLoop_snoc importStep_def, simp add: importLoop_def)

lemma importLeads_leads:
  "leads (fst (importLeads rt f skip xs s)) = fst (importLoop skip xs (leads s))"
  by (auto simp: importLeads_def filterLeads_def split: prod.splits sum.splits)

text \<open>
  C4 (as amended). Without \<open>skipDuplicates\<close> every incoming record is appended, in
  order. With \<open>skipDuplicates\<close> the records appended are, in order, the incoming records
  whose \<open>ID\<close> is neither the \<open>ID\<close> of a record of the collection nor the \<open>ID\<close> of
  an earlier incoming record; they are counted in \<open>importedCount\<close> and all the others
  in \<open>skippedCount\<close>. The collection that \<open>importLeads\<close> leaves is the one the loop
  built, whether or not the re-filter that follows throws.
\<close>

theorem importLeads_merge:
  "importLoop False incoming ls = (ls @ incoming, length incoming, 0)
   \<and> importLoop True incoming ls
       = (ls @ keptIncoming ls incoming, length (keptIncoming ls incoming),
          length incoming - length (keptIncoming ls incoming))
   \<and> leads (fst (importLeads rt f skip incoming s)) = fst (importLoop skip incoming (leads s))"
  by (simp only: importLoop_appending importLoop_skipping importLeads_leads simp_thms)

text \<open>
  C4 as stated, with "existing record" read as a record of the collection before the
  import, fails: the second of two incoming records with the same new \<open>ID\<close> is dropped
  and counted as skipped, although no record of the collection has that \<open>ID\<close>.
\<close>

theorem importLeads_merge_counterexample:
  "importLoop True [[(''ID'', ''7'')], [(''ID'', ''7''), (''Lead Name'', ''Bo'')]] []
     = ([[(''ID'', ''7'')]], 1, 1)
   \<and> mergeAsStated True [] [[(''ID'', ''7'')], [(''ID'', ''7''), (''Lead Name'', ''Bo'')]]
     = ([[(''ID'', ''7'')], [(''ID'', ''7''), (''Lead Name'', ''Bo'')]], 2, 0)
   \<and> importLoop True [[(''ID'', ''7'')], [(''ID'', ''7''), (''Lead Name'', ''Bo'')]] []
     \<noteq> mergeAsStated True [] [[(''ID'', ''7'')], [(''ID'', ''7''), (''Lead Name'', ''Bo'')]]"
  by (simp add: importLoop_def importStep_def mergeAsStated_def field_def)

theorem importLeads_merge_witness:
  "importLoop True [[(''ID'', ''7'')], [(''ID'', ''3'')], [(''ID'', ''7''), (''Lead Name'', ''Bo'')], [(''ID'', ''9'')]] [[(''ID'', ''3'')]]
     = ([[(''ID'', ''3'')], [(''ID'', ''7'')], [(''ID'', ''9'')]], 2, 2)
   \<and> keptIncoming [[(''ID'', ''3'')]] [[(''ID'', ''7'')], [(''ID'', ''3'')], [(''ID'', ''7''), (''Lead Name'', ''Bo'')], [(''ID'', ''9'')]]
     = [[(''ID'', ''7'')], [(''ID'', ''9'')]]"
proof -
  let ?inc = "[[(''ID'', ''7'')], [(''ID'', ''3'')], [(''ID'', ''7''), (''Lead Name'', ''Bo'')], [(''ID'', ''9'')]] :: lead list"
  let ?ls = "[[(''ID'', ''3'')]] :: lead list"
  have k: "keptIncoming ?ls ?inc = [[(''ID'', ''7'')], [(''ID'', ''9'')]]"
    by (simp add: keptIncoming_def field_def upt_rec)
  from importLeads_merge [of ?inc ?ls sampleRuntime noFilters True constructed] k
  show ?thesis by simp
qed

section \<open>Sorting the view\<close>

lemma mset_insertBy: "mset (insertBy cmp x ys) = add_mset x (mset ys)"
  by (induction ys) simp_all

lemma mset_insertionSort: "mset (insertionSort cmp xs) = mset xs"
  by (induction xs) (simp_all add: insertionSort_def mset_insertBy)

lemma set_insertBy: "set (insertBy cmp x ys) = insert x (set ys)"
  by (induction ys) auto

lemma set_insertionSort: "set (insertionSort cmp xs) = set xs"
  by (induction xs) (simp_all add: insertionSort_def set_insertBy)

lemma filter_insertBy:
  assumes "\<And>y. y \<in> set ys \<Longrightarrow> P x \<Longrightarrow> P y \<Longrightarrow> \<not> cmp x y > 0"
  shows "filter P (insertBy cmp x ys) = (if P x then x # filter P ys else filter P ys)"
  using assms by (induction ys) auto

lemma filter_insertionSort:
  assumes "\<And>x y. P x \<Longrightarrow> P y \<Longrightarrow> \<not> cmp x y > 0"
  shows "filter P (insertionSort cmp xs) = filter P xs"
proof (induction xs)
  case Nil
  show ?case by (simp add: insertionSort_def)
next
  case (Cons x xs)
  have "insertionSort cmp (x # xs) = insertBy cmp x (insertionSort cmp xs)"
    by (simp add: insertionSort_def)
  moreover have "filter P (insertBy cmp x (insertionSort cmp xs))
      = (if P x then x # filter P (insertionSort cmp xs) else filter P (insertionSort cmp xs))"
    by (rule filter_insertBy) (rule assms)
  ultimately show ?case using Cons.IH by simp
qed

lemma sorted_insertBy:
  assumes neg: "\<And>a b c. a \<in> S \<Longrightarrow> b \<in> S \<Longrightarrow> c \<in> S \<Longrightarrow> \<not> bf a b \<Longrightarrow> \<not> bf b c \<Longrightarrow> \<not> bf a c"
    and asym: "\<And>a b. bf a b \<Longrightarrow> \<not> bf b a"
    and cmp: "\<And>a b. (cmp a b > 0) = bf b a"
    and x: "x \<in> S" and ys: "set ys \<subseteq> S"
    and sorted: "sorted_wrt (\<lambda>a b. \<not> bf b a) ys"
  shows "sorted_wrt (\<lambda>a b. \<not> bf b a) (insertBy cmp x ys)"
  using ys sorted
proof (induction ys)
  case Nil
  show ?case by simp
next
  case (Cons y ys)
  show ?case
  proof (cases "bf y x")
    case True
    then have "\<not> bf x y" by (rule asym)
    with True Cons show ?thesis by (simp add: cmp set_insertBy)
  next
    case False
    have "\<not> bf z x" if "z \<in> set ys" for z
    proof -
      from that Cons.prems have "\<not> bf z y" by simp
      with neg [of z y x] False that x Cons.prems(1) show ?thesis by auto
    qed
    with False Cons.prems show ?thesis by (simp add: cmp)
  qed
qed

lemma sorted_insertionSort:
  assumes neg: "\<And>a b c. a \<in> S \<Longrightarrow> b \<in> S \<Longrightarrow> c \<in> S \<Longrightarrow> \<not> bf a b \<Longrightarrow> \<not> bf b c \<Longrightarrow> \<not> bf a c"
    and asym: "\<And>a b. bf a b \<Longrightarrow> \<not> bf b a"
    and cmp: "\<And>a b. (cmp a b > 0) = bf b a"
    and xs: "set xs \<subseteq> S"
  shows "sorted_wrt (\<lambda>a b. \<not> bf b a) (insertionSort cmp xs)"
  using xs
proof (induction xs)
  case Nil
  show ?case by (simp add: insertionSort_def)
next
  case (Cons x xs)
  have "sorted_wrt (\<lambda>a b. \<not> bf b a) (insertBy cmp x (insertionSort cmp xs))"
  proof (rule sorted_insertBy [where S = S])
    show "x \<in> S" using Cons.prems by simp
    show "set (insertionSort cmp xs) \<subseteq> S" using Cons.prems by (simp add: set_insertionSort)
    show "sorted_wrt (\<lambda>a b. \<not> bf b a) (insertionSort cmp xs)" using Cons by simp
  qed (fact neg asym cmp)+
  then show ?case by (simp add: insertionSort_def)
qed

lemma js_less_irrefl: "\<not> js_less v v"
proof (cases v)
  case (DateOf d)
  then show ?thesis by (cases d) simp_all
qed simp_all

lemma js_less_asym: "js_less u v \<Longrightarrow> \<not> js_less v u"
  by (induction u v rule: js_less.induct) auto

lemma js_less_trans: "js_less u v \<Longrightarrow> js_less v w \<Longrightarrow> js_less u w"
proof (induction u v rule: js_less.induct)
  case (1 a b)
  then show ?case by (cases w) auto
next
  case (2 a b)
  then show ?case by (cases w) auto
next
  case (3 a b)
  then show ?case
  proof (cases w)
    case (DateOf d)
    with 3 show ?thesis by (cases d) auto
  qed auto
qed simp_all

lemma sortValue_negtrans:
  assumes "sortValue rt col a \<noteq> DateOf None" and "sortValue rt col b \<noteq> DateOf None"
    and "sortValue rt col c \<noteq> DateOf None"
    and "\<not> js_less (sortValue rt col a) (sortValue rt col b)"
    and "\<not> js_less (sortValue rt col b) (sortValue rt col c)"
  shows "\<not> js_less (sortValue rt col a) (sortValue rt col c)"
proof -
  consider (num) "col = Named ''ID''"
    | (date) "col \<noteq> Named ''ID''" "col = Named ''Created'' \<or> col = Named ''Follow Up''"
    | (str) "col \<noteq> Named ''ID''" "col \<noteq> Named ''Created''" "col \<noteq> Named ''Follow Up''"
    by blast
  then show ?thesis
  proof cases
    case num
    with assms(4,5) show ?thesis by (simp add: sortValue_def Let_def)
  next
    case date
    then obtain f where f: "\<And>l. sortValue rt col l = DateOf (f l)"
      by (auto simp: sortValue_def Let_def)
    from assms(1-3) obtain x y z where "f a = Some x" "f b = Some y" "f c = Some z"
      unfolding f by auto
    with assms(4,5) show ?thesis unfolding f by simp
  next
    case str
    with assms(4,5) show ?thesis by (simp add: sortValue_def Let_def)
  qed
qed

lemma compareLeads_pos:
  "(compareLeads rt col dir a b > 0)
     = (if dir = ''asc'' then js_less (sortValue rt col b) (sortValue rt col a)
        else js_less (sortValue rt col a) (sortValue rt col b))"
  by (auto simp: compareLeads_def Let_def dest: js_less_asym)

lemma compareLeads_neg:
  "(compareLeads rt col dir a b < 0)
     = (if dir = ''asc'' then js_less (sortValue rt col a) (sortValue rt col b)
        else js_less (sortValue rt col b) (sortValue rt col a))"
  by (auto simp: compareLeads_def Let_def dest: js_less_asym)

lemma compareLeads_zero:
  "(compareLeads rt col dir a b = 0)
     = (\<not> js_less (sortValue rt col a) (sortValue rt col b)
        \<and> \<not> js_less (sortValue rt col b) (sortValue rt col a))"
  by (auto simp: compareLeads_def Let_def)

text \<open>Without an invalid date among the sort values the comparator is consistent.\<close>

lemma compareLeads_consistent:
  assumes valid: "\<forall>l \<in> set xs. sortValue rt col l \<noteq> DateOf None"
  shows "consistentOn (compareLeads rt col dir) xs"
proof -
  let ?v = "sortValue rt col"
  let ?cmp = "compareLeads rt col dir"
  have tie: "?cmp a c = 0"
    if a: "a \<in> set xs" and b: "b \<in> set xs" and c: "c \<in> set xs"
      and ab: "?cmp a b = 0" and bc: "?cmp b c = 0" for a b c
  proof -
    from valid a b c have va: "?v a \<noteq> DateOf None" and vb: "?v b \<noteq> DateOf None"
      and vc: "?v c \<noteq> DateOf None" by blast+
    from ab have 1: "\<not> js_less (?v a) (?v b)" and 2: "\<not> js_less (?v b) (?v a)"
      by (simp_all add: compareLeads_zero)
    from bc have 3: "\<not> js_less (?v b) (?v c)" and 4: "\<not> js_less (?v c) (?v b)"
      by (simp_all add: compareLeads_zero)
    have "\<not> js_less (?v a) (?v c)" by (rule sortValue_negtrans [OF va vb vc 1 3])
    moreover have "\<not> js_less (?v c) (?v a)" by (rule sortValue_negtrans [OF vc vb va 4 2])
    ultimately show ?thesis by (simp add: compareLeads_zero)
  qed
  have lt: "?cmp a c < 0" if ab: "?cmp a b < 0" and bc: "?cmp b c < 0" for a b c
  proof (cases "dir = ''asc''")
    case True
    with ab bc have "js_less (?v a) (?v b)" and "js_less (?v b) (?v c)"
      by (simp_all add: compareLeads_neg)
    then have "js_less (?v a) (?v c)" by (rule js_less_trans)
    with True show ?thesis by (simp add: compareLeads_neg)
  next
    case False
    with ab bc have "js_less (?v c) (?v b)" and "js_less (?v b) (?v a)"
      by (simp_all add: compareLeads_neg)
    then have "js_less (?v c) (?v a)" by (rule js_less_trans)
    with False show ?thesis by (simp add: compareLeads_neg)
  qed
  have swap: "(?cmp a b < 0) = (?cmp b a > 0)" for a b
    by (simp add: compareLeads_pos compareLeads_neg)
  have gt: "?cmp a c > 0" if ab: "?cmp a b > 0" and bc: "?cmp b c > 0" for a b c
  proof -
    from ab bc have "?cmp c b < 0" and "?cmp b a < 0" by (simp_all add: swap)
    then have "?cmp c a < 0" by (rule lt)
    then show ?thesis by (simp add: swap)
  qed
  have refl: "?cmp a a = 0" for a
    by (simp add: compareLeads_zero js_less_irrefl)
  have sym: "?cmp a b = 0 \<longrightarrow> ?cmp b a = 0" for a b
    by (simp add: compareLeads_zero)
  have inner: "(?cmp a b = 0 \<and> ?cmp b c = 0 \<longrightarrow> ?cmp a c = 0)
      \<and> (?cmp a b < 0 \<and> ?cmp b c < 0 \<longrightarrow> ?cmp a c < 0)
      \<and> (?cmp a b > 0 \<and> ?cmp b c > 0 \<longrightarrow> ?cmp a c > 0)"
    if "a \<in> set xs" "b \<in> set xs" "c \<in> set xs" for a b c
  proof (intro conjI impI)
    assume "?cmp a b = 0 \<and> ?cmp b c = 0"
    with that show "?cmp a c = 0" using tie [of a b c] by blast
  next
    assume "?cmp a b < 0 \<and> ?cmp b c < 0"
    then show "?cmp a c < 0" using lt [of a b c] by blast
  next
    assume "?cmp a b > 0 \<and> ?cmp b c > 0"
    then show "?cmp a c > 0" using gt [of a b c] by blast
  qed
  show ?thesis
    unfolding consistentOn_def list_all_iff
    by (intro ballI conjI refl sym swap inner)
qed

text \<open>
  C5 (as amended). For a column key that the look-up in the column map finds, and a
  view in which no record has an invalid date as its sort value (which can only happen
  in the two date columns), the sorted view is a rearrangement of the view in which
  records with the same sort value keep their relative order and no later record has a
  smaller (ascending) or larger (descending) sort value than an earlier one. A key for
  which the look-up yields nothing leaves the view unchanged. Sorting on the active
  column flips the direction between \<open>asc\<close> and \<open>desc\<close>; sorting on another column
  sets it to \<open>asc\<close>.
\<close>

theorem sortTable_stable_sort:
  "(columnMap rt column = Some col
      \<and> (\<forall>l \<in> set (filteredLeads s). sortValue rt col l \<noteq> DateOf None) \<longrightarrow>
      mset (filteredLeads (sortTable rt column s)) = mset (filteredLeads s)
    \<and> (\<forall>v. filter (\<lambda>l. sortValue rt col l = v) (filteredLeads (sortTable rt column s))
           = filter (\<lambda>l. sortValue rt col l = v) (filteredLeads s))
    \<and> sorted_wrt (\<lambda>a b. if sortDirection (sortTable rt column s) = ''asc''
                           then \<not> js_less (sortValue rt col b) (sortValue rt col a)
                           else \<not> js_less (sortValue rt col a) (sortValue rt col b))
           (filteredLeads (sortTable rt column s)))
   \<and> (columnMap rt column = None \<longrightarrow> filteredLeads (sortTable rt column s) = filteredLeads s)
   \<and> sortColumn (sortTable rt column s) = column
   \<and> sortDirection (sortTable rt column s)
       = (if sortColumn s = column then (if sortDirection s = ''asc'' then ''desc'' else ''asc'')
          else ''asc'')"
proof -
  let ?s' = "sortTable rt column s"
  let ?dir = "sortDirection ?s'"
  have dir: "?dir = (if sortColumn s = column
      then (if sortDirection s = ''asc'' then ''desc'' else ''asc'') else ''asc'')"
    by (simp add: sortTable_def Let_def split: option.splits)
  have col: "sortColumn ?s' = column"
    by (simp add: sortTable_def Let_def split: option.splits)
  have unknown: "columnMap rt column = None \<longrightarrow> filteredLeads ?s' = filteredLeads s"
    by (simp add: sortTable_def Let_def)
  have known: "filteredLeads ?s' = insertionSort (compareLeads rt col ?dir) (filteredLeads s)"
    if k: "columnMap rt column = Some col"
      and valid: "\<forall>l \<in> set (filteredLeads s). sortValue rt col l \<noteq> DateOf None"
  proof -
    have "filteredLeads ?s'
        = js_sort (sortInconsistent rt) (compareLeads rt col ?dir) (filteredLeads s)"
      using k by (simp add: sortTable_def Let_def)
    with compareLeads_consistent [OF valid, of ?dir] show ?thesis by (simp add: js_sort_def)
  qed
  have perm: "mset (filteredLeads ?s') = mset (filteredLeads s)"
    if "columnMap rt column = Some col"
      and "\<forall>l \<in> set (filteredLeads s). sortValue rt col l \<noteq> DateOf None"
    by (simp only: known [OF that] mset_insertionSort)
  have stable: "filter (\<lambda>l. sortValue rt col l = v) (filteredLeads ?s')
      = filter (\<lambda>l. sortValue rt col l = v) (filteredLeads s)"
    if "columnMap rt column = Some col"
      and "\<forall>l \<in> set (filteredLeads s). sortValue rt col l \<noteq> DateOf None" for v
    unfolding known [OF that]
    by (rule filter_insertionSort) (simp add: compareLeads_pos js_less_irrefl)
  have sorted: "sorted_wrt (\<lambda>a b. if ?dir = ''asc''
                           then \<not> js_less (sortValue rt col b) (sortValue rt col a)
                           else \<not> js_less (sortValue rt col a) (sortValue rt col b))
           (filteredLeads ?s')"
    if k: "columnMap rt column = Some col"
      and valid: "\<forall>l \<in> set (filteredLeads s). sortValue rt col l \<noteq> DateOf None"
  proof -
    let ?S = "set (filteredLeads s)"
    let ?bf = "\<lambda>a b. if ?dir = ''asc'' then js_less (sortValue rt col a) (sortValue rt col b)
                     else js_less (sortValue rt col b) (sortValue rt col a)"
    have "sorted_wrt (\<lambda>a b. \<not> ?bf b a)
        (insertionSort (compareLeads rt col ?dir) (filteredLeads s))"
    proof (rule sorted_insertionSort [where S = ?S])
      fix a b c assume "a \<in> ?S" "b \<in> ?S" "c \<in> ?S" "\<not> ?bf a b" "\<not> ?bf b c"
      with valid sortValue_negtrans [of rt col a b c] sortValue_negtrans [of rt col c b a]
      show "\<not> ?bf a c" by (auto split: if_splits)
    next
      fix a b assume "?bf a b"
      then show "\<not> ?bf b a" by (auto split: if_splits dest: js_less_asym)
    next
      fix a b show "(compareLeads rt col ?dir a b > 0) = ?bf b a"
        by (simp add: compareLeads_pos)
    qed simp
    moreover have "(\<lambda>a b. \<not> ?bf b a) = (\<lambda>a b. if ?dir = ''asc''
                           then \<not> js_less (sortValue rt col b) (sortValue rt col a)
                           else \<not> js_less (sortValue rt col a) (sortValue rt col b))"
      by (intro ext) simp
    ultimately show ?thesis unfolding known [OF k valid] by simp
  qed
  show ?thesis
    using perm stable sorted unknown col dir by (intro conjI impI allI) blast+
qed

lemma sortValue_samples:
  "sortValue sampleRuntime (Named ''Created'') leadJan3 = DateOf (Some 3)"
  "sortValue sampleRuntime (Named ''Created'') leadJan1 = DateOf (Some 1)"
  "sortValue sampleRuntime (Named ''Created'') leadNoDate = DateOf None"
  by (simp_all add: sortValue_def propertyName_def field_def orEmpty_def sampleRuntime_def
      leadJan3_def leadJan1_def leadNoDate_def)

lemma columnMap_samples:
  "columnMap rt ''sort-created'' = Some (Named ''Created'')"
  "columnMap rt ''sort-phone'' = None"
  by (simp_all add: columnMap_def columnTable_def objectPrototypeFunctions_def)

lemma sortTable_sample_created:
  "filteredLeads (sortTable sampleRuntime ''sort-created'' (constructed\<lparr>filteredLeads := xs\<rparr>))
     = js_sort runThenInsert (compareLeads sampleRuntime (Named ''Created'') ''asc'') xs"
  "sortDirection (sortTable sampleRuntime ''sort-created'' (constructed\<lparr>filteredLeads := xs\<rparr>)) = ''asc''"
  by (simp_all add: sortTable_def columnMap_samples constructed_def) (simp add: sampleRuntime_def)

lemma compare_samples:
  "compareLeads sampleRuntime (Named ''Created'') ''asc'' leadJan3 leadNoDate = 0"
  "compareLeads sampleRuntime (Named ''Created'') ''asc'' leadNoDate leadJan3 = 0"
  "compareLeads sampleRuntime (Named ''Created'') ''asc'' leadNoDate leadJan1 = 0"
  "compareLeads sampleRuntime (Named ''Created'') ''asc'' leadJan1 leadNoDate = 0"
  "compareLeads sampleRuntime (Named ''Created'') ''asc'' leadJan3 leadJan1 = 1"
  "compareLeads sampleRuntime (Named ''Created'') ''asc'' leadJan1 leadJan3 = - 1"
  "compareLeads sampleRuntime (Named ''Created'') ''asc'' l l = 0"
  by (simp_all add: compareLeads_def sortValue_samples js_less_irrefl)

text \<open>
  C5 as stated fails when the sorted column holds an invalid date: the comparator
  answers 0 for every comparison with such a record and is not consistent, so that the
  order is the engine's. In the view below, sorted by \<open>sort-created\<close> ascending on the
  sample engine, the two comparisons of the run detection both answer 0 and the view
  stays as it is, with 3 January before 1 January.
\<close>

theorem sortTable_invalid_date_counterexample:
  "filteredLeads (sortTable sampleRuntime ''sort-created''
       (constructed\<lparr>filteredLeads := [leadJan3, leadNoDate, leadJan1]\<rparr>))
     = [leadJan3, leadNoDate, leadJan1]
   \<and> sortDirection (sortTable sampleRuntime ''sort-created''
       (constructed\<lparr>filteredLeads := [leadJan3, leadNoDate, leadJan1]\<rparr>)) = ''asc''
   \<and> js_less (sortValue sampleRuntime (Named ''Created'') leadJan1)
         (sortValue sampleRuntime (Named ''Created'') leadJan3)"
  by (simp add: sortTable_sample_created js_sort_def consistentOn_def runThenInsert_def
      countAndMakeRun_def compare_samples sortValue_samples)

theorem sortTable_stable_sort_witness:
  "columnMap sampleRuntime ''sort-created'' = Some (Named ''Created'')
   \<and> list_all (\<lambda>l. sortValue sampleRuntime (Named ''Created'') l \<noteq> DateOf None)
        (filteredLeads (constructed\<lparr>filteredLeads := [leadJan3, leadJan1]\<rparr>))
   \<and> sorted_wrt (\<lambda>a b. \<not> js_less (sortValue sampleRuntime (Named ''Created'') b)
                          (sortValue sampleRuntime (Named ''Created'') a))
        (filteredLeads (sortTable sampleRuntime ''sort-created''
           (constructed\<lparr>filteredLeads := [leadJan3, leadJan1]\<rparr>)))
   \<and> filteredLeads (sortTable sampleRuntime ''sort-created''
           (constructed\<lparr>filteredLeads := [leadJan3, leadJan1]\<rparr>)) = [leadJan1, leadJan3]
   \<and> filteredLeads (sortTable sampleRuntime ''sort-created'' (sortTable sampleRuntime ''sort-created''
           (constructed\<lparr>filteredLeads := [leadJan3, leadJan1]\<rparr>))) = [leadJan3, leadJan1]
   \<and> columnMap sampleRuntime ''sort-phone'' = None
   \<and> filteredLeads (sortTable sampleRuntime ''sort-phone''
           (constructed\<lparr>filteredLeads := [leadJan3, leadJan1]\<rparr>)) = [leadJan3, leadJan1]"
proof -
  let ?s = "constructed\<lparr>filteredLeads := [leadJan3, leadJan1]\<rparr>"
  let ?c = "Named ''Created''"
  have a: "columnMap sampleRuntime ''sort-created'' = Some ?c" by (rule columnMap_samples)
  have b: "\<forall>l \<in> set (filteredLeads ?s). sortValue sampleRuntime ?c l \<noteq> DateOf None"
    by (simp add: sortValue_samples)
  have u: "columnMap sampleRuntime ''sort-phone'' = None" by (rule columnMap_samples)
  have d: "sortDirection (sortTable sampleRuntime ''sort-created'' ?s) = ''asc''"
    by (rule sortTable_sample_created)
  note t = sortTable_stable_sort [of sampleRuntime "''sort-created''" ?c ?s]
  from t a b have m: "mset (filteredLeads (sortTable sampleRuntime ''sort-created'' ?s))
      = mset (filteredLeads ?s)"
    by blast
  from t a b d
  have c: "sorted_wrt (\<lambda>a b. \<not> js_less (sortValue sampleRuntime ?c b) (sortValue sampleRuntime ?c a))
        (filteredLeads (sortTable sampleRuntime ''sort-created'' ?s))"
    by simp
  from sortTable_stable_sort [of sampleRuntime "''sort-phone''" ?c ?s] u
  have n: "filteredLeads (sortTable sampleRuntime ''sort-phone'' ?s) = [leadJan3, leadJan1]"
    by simp
  have r: "filteredLeads (sortTable sampleRuntime ''sort-created'' ?s) = [leadJan1, leadJan3]"
    by (simp add: sortTable_sample_created js_sort_def consistentOn_def insertionSort_def
        compare_samples)
  have r2: "filteredLeads (sortTable sampleRuntime ''sort-created'' (sortTable sampleRuntime ''sort-created'' ?s))
      = [leadJan3, leadJan1]"
    by (simp add: sortTable_def columnMap_samples constructed_def js_sort_def consistentOn_def
        insertionSort_def compareLeads_def sortValue_samples js_less_irrefl)
  from b have b': "list_all (\<lambda>l. sortValue sampleRuntime ?c l \<noteq> DateOf None)
      (filteredLeads ?s)"
    by (simp only: list_all_iff)
  show ?thesis using a b' c n r r2 u by (intro conjI)
qed

section \<open>CSV round trip\<close>

lemma js_split_nonempty: "js_split c s \<noteq> []"
  by (induction s) (auto split: list.splits)

lemma js_split_plain: "c \<notin> set x \<Longrightarrow> js_split c x = [x]"
  by (induction x) auto

lemma js_split_piece: "c \<notin> set x \<Longrightarrow> js_split c (x @ c # rest) = x # js_split c rest"
  by (induction x) (auto split: list.splits)

lemma js_split_join:
  "xs \<noteq> [] \<Longrightarrow> \<forall>x \<in> set xs. c \<notin> set x \<Longrightarrow> js_split c (js_join [c] xs) = xs"
proof (induction "[c]" xs rule: js_join.induct)
  case 1
  then show ?case by simp
next
  case (2 x)
  then show ?case by (simp add: js_split_plain)
next
  case (3 x y ys)
  then show ?case by (simp add: js_split_piece)
qed

lemma set_js_join: "set (js_join sep xs) \<subseteq> set sep \<union> \<Union> (set ` set xs)"
  by (induction sep xs rule: js_join.induct) auto

lemma js_trim_empty_iff: "js_trim s = [] \<longleftrightarrow> (\<forall>c \<in> set s. isSpace c)"
proof
  let ?d = "dropWhile isSpace s"
  assume "js_trim s = []"
  then have a: "\<forall>c \<in> set ?d. isSpace c"
    by (simp only: js_trim_def rev_is_Nil_conv dropWhile_eq_Nil_conv set_rev)
  have "?d = []"
  proof (rule ccontr)
    assume n: "?d \<noteq> []"
    then have "\<not> isSpace (hd ?d)" by (rule hd_dropWhile)
    moreover from n have "hd ?d \<in> set ?d" by simp
    ultimately show False using a by blast
  qed
  then show "\<forall>c \<in> set s. isSpace c" by (simp only: dropWhile_eq_Nil_conv)
next
  assume "\<forall>c \<in> set s. isSpace c"
  then have "dropWhile isSpace s = []" by (simp only: dropWhile_eq_Nil_conv)
  then show "js_trim s = []" by (simp only: js_trim_def rev.simps dropWhile.simps)
qed

lemma doubleQuotes_plain: "dquote \<notin> set v \<Longrightarrow> doubleQuotes v = v"
  by (induction v) (auto simp: doubleQuotes_def)

lemma stripQuotes_plain: "dquote \<notin> set v \<Longrightarrow> stripQuotes v = v"
  by (induction v) (auto simp: stripQuotes_def)

lemma loop_inside_quotes:
  "dquote \<notin> set v \<Longrightarrow>
   parseCSVLine_loop (v @ rest) res cur True = parseCSVLine_loop rest res (cur @ v) True"
  by (induction v arbitrary: cur) auto

lemma loop_quoted_cell:
  "dquote \<notin> set v \<Longrightarrow>
   parseCSVLine_loop (dquote # v @ dquote # rest) res [] False = parseCSVLine_loop rest res v False"
  by (simp add: loop_inside_quotes)

lemma loop_quoted_cells:
  assumes "vs \<noteq> []" and "\<forall>v \<in> set vs. dquote \<notin> set v \<and> js_trim v = v"
  shows "parseCSVLine_loop (js_join [comma] (map (\<lambda>v. dquote # v @ [dquote]) vs)) res [] False
       = res @ vs"
  using assms
proof (induction vs arbitrary: res)
  case Nil
  then show ?case by simp
next
  case (Cons v vs)
  show ?case
  proof (cases vs)
    case Nil
    with Cons.prems loop_quoted_cell [of v "[]" res] show ?thesis by simp
  next
    case (Cons w ws)
    let ?rest = "js_join [comma] (map (\<lambda>v. dquote # v @ [dquote]) vs)"
    have "js_join [comma] (map (\<lambda>v. dquote # v @ [dquote]) (v # vs))
        = dquote # v @ dquote # comma # ?rest"
      using Cons by simp
    moreover have "parseCSVLine_loop (dquote # v @ dquote # comma # ?rest) res [] False
        = parseCSVLine_loop ?rest (res @ [v]) [] False"
      using Cons.prems(2) loop_quoted_cell [of v "comma # ?rest" res] by simp
    moreover have "parseCSVLine_loop ?rest (res @ [v]) [] False = (res @ [v]) @ vs"
      using Cons.prems(2) Cons by (intro Cons.IH) simp_all
    ultimately show ?thesis by simp
  qed
qed

lemma setField_fresh: "k \<notin> fst ` set ps \<Longrightarrow> setField ps k v = ps @ [(k, v)]"
  by (induction ps) auto

lemma assignField_fresh:
  "k \<noteq> ''__proto__'' \<Longrightarrow> k \<notin> fst ` set ps \<Longrightarrow> assignField ps k v = ps @ [(k, v)]"
  by (simp add: assignField_def setField_fresh)

lemma fill_row:
  "distinct hs \<Longrightarrow> ''__proto__'' \<notin> set hs \<Longrightarrow> set hs \<inter> fst ` set acc = {} \<Longrightarrow>
   fold (\<lambda>(header, index) row. assignField row header (orEmpty (arrayGet values index)))
     (zip hs [k..<k + length hs]) acc
   = acc @ zip hs (map (\<lambda>i. orEmpty (arrayGet values i)) [k..<k + length hs])"
proof (induction hs arbitrary: k acc)
  case Nil
  show ?case by simp
next
  case (Cons h hs)
  have u: "[k..<k + length (h # hs)] = k # [Suc k..<Suc k + length hs]"
    by (subst upt_rec) simp
  have f: "assignField acc h (orEmpty (arrayGet values k)) = acc @ [(h, orEmpty (arrayGet values k))]"
    using Cons.prems by (intro assignField_fresh) auto
  have "set hs \<inter> fst ` set (acc @ [(h, orEmpty (arrayGet values k))]) = {}"
    using Cons.prems by auto
  with Cons.prems Cons.IH [of "acc @ [(h, orEmpty (arrayGet values k))]" "Suc k"]
  show ?case unfolding u by (simp add: f)
qed

lemma makeRow_zip:
  assumes "distinct hs" and "''__proto__'' \<notin> set hs" and "length values = length hs"
  shows "makeRow hs values = zip hs values"
proof -
  have "map (\<lambda>i. orEmpty (arrayGet values i)) [0..<length hs] = values"
    using assms(3) by (intro nth_equalityI) (simp_all add: orEmpty_def arrayGet_def)
  with fill_row [OF assms(1,2), of "[]" "values" 0] show ?thesis
    by (simp add: makeRow_def)
qed

lemma js_join_has_sep: "2 \<le> length xs \<Longrightarrow> set sep \<subseteq> set (js_join sep xs)"
  by (induction sep xs rule: js_join.induct) auto

lemma js_join_has_first: "xs \<noteq> [] \<Longrightarrow> set (hd xs) \<subseteq> set (js_join sep xs)"
  by (induction sep xs rule: js_join.induct) auto

lemma not_blank: "c \<in> set s \<Longrightarrow> \<not> isSpace c \<Longrightarrow> js_trim s \<noteq> []"
  by (auto simp: js_trim_empty_iff)

lemma trimmed_has_ink: "js_trim h = h \<Longrightarrow> h \<noteq> [] \<Longrightarrow> \<exists>c \<in> set h. \<not> isSpace c"
  using js_trim_empty_iff [of h] by auto

lemma header_line_not_blank:
  assumes "hs \<noteq> []" and "hs \<noteq> [[]]" and "\<forall>h \<in> set hs. js_trim h = h"
  shows "js_trim (js_join [comma] hs) \<noteq> []"
proof (cases "2 \<le> length hs")
  case True
  then have "comma \<in> set (js_join [comma] hs)" using js_join_has_sep [of hs "[comma]"] by simp
  moreover have "\<not> isSpace comma" by (simp add: isSpace_def)
  ultimately show ?thesis by (rule not_blank)
next
  case False
  with assms(1) obtain h where hs: "hs = [h]" by (cases hs) (auto simp: Suc_le_eq)
  with assms have "h \<noteq> []" "js_trim h = h" by simp_all
  then show ?thesis using trimmed_has_ink [of h] by (auto simp: hs js_trim_empty_iff)
qed

lemma rebuild_record:
  "distinct (map fst r) \<Longrightarrow>
   zip (map fst r) (map (\<lambda>h. orEmpty (map_of r h)) (map fst r)) = r"
proof (induction r)
  case Nil
  show ?case by simp
next
  case (Cons p r)
  obtain k v where p: "p = (k, v)" by (cases p)
  from Cons.prems have k: "k \<notin> fst ` set r" and d: "distinct (map fst r)" by (simp_all add: p)
  have e: "map (\<lambda>h. orEmpty (map_of (p # r) h)) (map fst r)
      = map (\<lambda>h. orEmpty (map_of r h)) (map fst r)"
    using k by (intro map_cong) (auto simp: p)
  have "zip (map fst (p # r)) (map (\<lambda>h. orEmpty (map_of (p # r) h)) (map fst (p # r)))
      = (k, v) # zip (map fst r) (map (\<lambda>h. orEmpty (map_of (p # r) h)) (map fst r))"
    by (simp add: p orEmpty_def del: map_map)
  also have "\<dots> = (k, v) # zip (map fst r) (map (\<lambda>h. orEmpty (map_of r h)) (map fst r))"
    by (simp only: e)
  also have "\<dots> = p # r" by (simp only: Cons.IH [OF d] p)
  finally show ?case .
qed

lemma same_mapping:
  assumes "distinct (map fst r)" and "set (map fst r) = set hs"
  shows "map_of (zip hs (map (\<lambda>h. orEmpty (map_of r h)) hs)) = map_of r"
proof
  fix x
  show "map_of (zip hs (map (\<lambda>h. orEmpty (map_of r h)) hs)) x = map_of r x"
  proof (cases "x \<in> set hs")
    case True
    with assms(2) obtain v where "map_of r x = Some v"
      by (metis map_of_eq_None_iff not_None_eq set_map)
    with True show ?thesis by (simp add: map_of_zip_map orEmpty_def)
  next
    case False
    with assms(2) have "map_of r x = None" by (simp add: map_of_eq_None_iff)
    with False show ?thesis by (simp add: map_of_zip_map)
  qed
qed

text \<open>
  C1 (as amended). Take a non-empty sequence of records with the same field names as the
  first one (each name once, at least one name, and not the empty name alone), where
  no field name contains a comma, a double quote or a newline or is \<open>__proto__\<close>, no
  value contains a double quote or a newline, and neither names nor values start or end
  with white space. Then serialization produces a text, and parsing that text gives back, record by
  record, the same mapping from field names to values; when every record lists its
  fields in the order of the first, it gives back the very same sequence.
\<close>

theorem csv_round_trip:
  assumes rs: "rs \<noteq> []"
    and fields: "map fst (hd rs) \<noteq> []" "map fst (hd rs) \<noteq> [[]]"
    and names: "\<forall>h \<in> set (map fst (hd rs)).
        comma \<notin> set h \<and> dquote \<notin> set h \<and> newline \<notin> set h \<and> js_trim h = h
        \<and> h \<noteq> ''__proto__''"
    and homog: "\<forall>r \<in> set rs. distinct (map fst r) \<and> set (map fst r) = set (map fst (hd rs))"
    and plain: "\<forall>r \<in> set rs. \<forall>v \<in> snd ` set r.
        dquote \<notin> set v \<and> newline \<notin> set v \<and> js_trim v = v"
  shows "\<exists>csv. exportToCSV rs = Some csv
      \<and> map map_of (parseCSV csv) = map map_of rs
      \<and> ((\<forall>r \<in> set rs. map fst r = map fst (hd rs)) \<longrightarrow> parseCSV csv = rs)"
proof -
  define hs where "hs = map fst (hd rs)"
  define vals where "vals = (\<lambda>r. map (\<lambda>h. orEmpty (field r h)) hs)"
  define dline where "dline = (\<lambda>r. js_join [comma] (map (csvCell r) hs))"
  define hline where "hline = js_join [comma] hs"
  define csv where "csv = js_join [newline] (hline # map dline rs)"
  have ex: "exportToCSV rs = Some csv"
    using rs by (cases rs) (simp_all add: exportToCSV_def Let_def csv_def hline_def dline_def hs_def)
  from rs have "hd rs \<in> set rs" by simp
  with homog have dist: "distinct hs" unfolding hs_def by blast
  have hs_ne: "hs \<noteq> []" using fields(1) by (simp add: hs_def)
  have names': "comma \<notin> set h \<and> dquote \<notin> set h \<and> newline \<notin> set h \<and> js_trim h = h"
    if "h \<in> set hs" for h
    using that names unfolding hs_def by blast
  have proto: "''__proto__'' \<notin> set hs"
    using names unfolding hs_def by blast
  have clean: "dquote \<notin> set (orEmpty (field r h)) \<and> newline \<notin> set (orEmpty (field r h))
      \<and> js_trim (orEmpty (field r h)) = orEmpty (field r h)"
    if r: "r \<in> set rs" and h: "h \<in> set hs" for r h
  proof -
    from r h homog have "h \<in> set (map fst r)" unfolding hs_def by blast
    then obtain v where v: "map_of r h = Some v"
      by (metis map_of_eq_None_iff not_None_eq set_map)
    then have "(h, v) \<in> set r" by (rule map_of_SomeD)
    then have "v \<in> snd ` set r" by force
    with plain r have "dquote \<notin> set v \<and> newline \<notin> set v \<and> js_trim v = v" by blast
    with v show ?thesis by (simp add: field_def orEmpty_def)
  qed
  have vals_clean: "dquote \<notin> set v \<and> newline \<notin> set v \<and> js_trim v = v"
    if "r \<in> set rs" and "v \<in> set (vals r)" for r v
    using that clean unfolding vals_def by auto
  have cells: "map (csvCell r) hs = map (\<lambda>v. dquote # v @ [dquote]) (vals r)"
    if r: "r \<in> set rs" for r
  proof -
    have "csvCell r h = dquote # orEmpty (field r h) @ [dquote]" if "h \<in> set hs" for h
      using clean [OF r that] by (simp add: csvCell_def doubleQuotes_plain)
    then show ?thesis unfolding vals_def by (simp add: comp_def)
  qed
  have parse: "parseCSVLine (dline r) = vals r" if r: "r \<in> set rs" for r
  proof -
    have "vals r \<noteq> []" using hs_ne by (simp add: vals_def)
    moreover have "\<forall>v \<in> set (vals r). dquote \<notin> set v \<and> js_trim v = v"
      using vals_clean [OF r] by blast
    ultimately have "parseCSVLine_loop (js_join [comma] (map (\<lambda>v. dquote # v @ [dquote]) (vals r))) [] [] False
        = [] @ vals r"
      by (rule loop_quoted_cells)
    then show ?thesis unfolding parseCSVLine_def dline_def cells [OF r] by simp
  qed
  have nl_h: "newline \<notin> set hline"
    using set_js_join [of "[comma]" hs] names' unfolding hline_def by auto
  have nl_d: "newline \<notin> set (dline r)" if r: "r \<in> set rs" for r
  proof
    assume "newline \<in> set (dline r)"
    with set_js_join [of "[comma]" "map (\<lambda>v. dquote # v @ [dquote]) (vals r)"]
    have "newline \<in> set [comma] \<union> \<Union> (set ` set (map (\<lambda>v. dquote # v @ [dquote]) (vals r)))"
      unfolding dline_def cells [OF r] by blast
    then obtain v where "v \<in> set (vals r)" and "newline \<in> set (dquote # v @ [dquote])"
      by (auto split: if_splits)
    with vals_clean [OF r] show False by auto
  qed
  have split: "js_split newline csv = hline # map dline rs"
    unfolding csv_def using nl_h nl_d by (intro js_split_join) auto
  have nb_h: "js_trim hline \<noteq> []"
    unfolding hline_def using fields names' by (intro header_line_not_blank) (auto simp: hs_def)
  have nb_d: "js_trim (dline r) \<noteq> []" if r: "r \<in> set rs" for r
  proof -
    from hs_ne have "set (hd (map (csvCell r) hs)) \<subseteq> set (dline r)"
      unfolding dline_def by (intro js_join_has_first) simp
    moreover from hs_ne have "dquote \<in> set (hd (map (csvCell r) hs))"
      by (simp add: hd_map csvCell_def)
    ultimately have "dquote \<in> set (dline r)" by blast
    moreover have "\<not> isSpace dquote" by (simp add: isSpace_def)
    ultimately show ?thesis by (rule not_blank)
  qed
  have lines: "csvLines csv = hline # map dline rs"
  proof -
    have "filter (\<lambda>line. js_trim line \<noteq> []) (map dline rs) = map dline rs"
      by (rule filter_True) (auto simp: nb_d)
    then show ?thesis unfolding csvLines_def split using nb_h by simp
  qed
  have heads: "csvHeaders hline = hs"
  proof -
    have "js_split comma hline = hs"
      unfolding hline_def using hs_ne names' by (intro js_split_join) auto
    moreover have "map (\<lambda>h. stripQuotes (js_trim h)) hs = hs"
      using names' by (intro map_idI) (simp add: stripQuotes_plain)
    ultimately show ?thesis by (simp add: csvHeaders_def)
  qed
  have len: "length (vals r) = length hs" for r by (simp add: vals_def)
  have rows: "parseCSV_rows hs (map dline rs) = map (\<lambda>r. zip hs (vals r)) rs"
  proof -
    have "filter (\<lambda>l. length (parseCSVLine l) = length hs) (map dline rs) = map dline rs"
      by (rule filter_True) (auto simp: parse len)
    then have "parseCSV_rows hs (map dline rs) = map (\<lambda>l. makeRow hs (parseCSVLine l)) (map dline rs)"
      by (simp only: parseCSV_rows_eq)
    also have "\<dots> = map (\<lambda>r. makeRow hs (vals r)) rs"
      by (simp add: parse comp_def)
    also have "\<dots> = map (\<lambda>r. zip hs (vals r)) rs"
      by (simp add: makeRow_zip [OF dist proto len])
    finally show ?thesis .
  qed
  have p: "parseCSV csv = map (\<lambda>r. zip hs (vals r)) rs"
    using rs rows by (simp add: parseCSV_def lines Let_def heads)
  have m: "map map_of (parseCSV csv) = map map_of rs"
  proof -
    have "map_of (zip hs (vals r)) = map_of r" if "r \<in> set rs" for r
      using that homog same_mapping [of r hs] unfolding vals_def field_def hs_def by blast
    then show ?thesis unfolding p by simp
  qed
  have e: "parseCSV csv = rs" if "\<forall>r \<in> set rs. map fst r = map fst (hd rs)"
  proof -
    have "zip hs (vals r) = r" if r: "r \<in> set rs" for r
    proof -
      from r \<open>\<forall>r \<in> set rs. map fst r = map fst (hd rs)\<close> have "map fst r = hs"
        by (simp add: hs_def)
      moreover from r homog have "distinct (map fst r)" by blast
      ultimately show ?thesis
        using rebuild_record [of r] unfolding vals_def field_def by simp
    qed
    then show ?thesis unfolding p by (simp add: map_idI)
  qed
  from ex m e show ?thesis by blast
qed

lemma export_samples:
  "exportToCSV [inchLead] = Some (''Lead Name'' @ [newline, dquote, CHR ''6'', dquote, dquote, dquote])"
  "exportToCSV [paddedLead] = Some (''Lead Name'' @ [newline, dquote] @ '' Ann'' @ [dquote])"
  "exportToCSV [commaLead] = Some (''Name, first'' @ [newline, dquote] @ ''Ann'' @ [dquote])"
  by (simp_all add: exportToCSV_def inchLead_def paddedLead_def commaLead_def csvCell_def
      doubleQuotes_def field_def orEmpty_def)

lemma parse_samples:
  "parseCSV (''Lead Name'' @ [newline, dquote, CHR ''6'', dquote, dquote, dquote])
     = [[(''Lead Name'', ''6'')]]"
  "parseCSV (''Lead Name'' @ [newline, dquote] @ '' Ann'' @ [dquote]) = [[(''Lead Name'', ''Ann'')]]"
  "parseCSV (''Name, first'' @ [newline, dquote] @ ''Ann'' @ [dquote]) = []"
  by (simp_all add: parseCSV_def csvLines_def csvHeaders_def js_trim_def isSpace_def
      stripQuotes_def parseCSVLine_def makeRow_def assignField_def orEmpty_def arrayGet_def Let_def)

text \<open>
  C1 as stated fails, on records without any newline: a value with a double quote is
  written with the quote doubled, and the line parser drops every quote it reads; a value
  that starts with a space comes back trimmed; and a field name with a comma is split
  into two headers, so that no data row has the header's arity and nothing comes back.
\<close>

theorem csv_round_trip_counterexample:
  "exportToCSV [inchLead] = Some (''Lead Name'' @ [newline, dquote, CHR ''6'', dquote, dquote, dquote])
   \<and> parseCSV (''Lead Name'' @ [newline, dquote, CHR ''6'', dquote, dquote, dquote]) \<noteq> [inchLead]
   \<and> exportToCSV [paddedLead] = Some (''Lead Name'' @ [newline, dquote] @ '' Ann'' @ [dquote])
   \<and> parseCSV (''Lead Name'' @ [newline, dquote] @ '' Ann'' @ [dquote]) \<noteq> [paddedLead]
   \<and> exportToCSV [commaLead] = Some (''Name, first'' @ [newline, dquote] @ ''Ann'' @ [dquote])
   \<and> parseCSV (''Name, first'' @ [newline, dquote] @ ''Ann'' @ [dquote]) \<noteq> [commaLead]"
  unfolding export_samples parse_samples
  by (simp add: inchLead_def paddedLead_def commaLead_def)

theorem csv_round_trip_witness:
  "sampleLeads \<noteq> []
   \<and> list_all (\<lambda>r. map fst r = [''ID'', ''Lead Name'']) sampleLeads
   \<and> list_all (\<lambda>r. list_all (\<lambda>v. dquote \<notin> set v \<and> newline \<notin> set v \<and> js_trim v = v) (map snd r))
         sampleLeads
   \<and> exportToCSV sampleLeads \<noteq> None
   \<and> parseCSV (the (exportToCSV sampleLeads)) = sampleLeads"
proof -
  have a: "sampleLeads \<noteq> []" by (simp add: sampleLeads_def)
  have h: "map fst (hd sampleLeads) = [''ID'', ''Lead Name'']" by (simp add: sampleLeads_def)
  have b: "map fst (hd sampleLeads) \<noteq> []" "map fst (hd sampleLeads) \<noteq> [[]]"
    unfolding h by simp_all
  have c: "\<forall>h \<in> set (map fst (hd sampleLeads)).
      comma \<notin> set h \<and> dquote \<notin> set h \<and> newline \<notin> set h \<and> js_trim h = h
      \<and> h \<noteq> ''__proto__''"
    unfolding h by (simp add: js_trim_def isSpace_def)
  have k: "\<forall>r \<in> set sampleLeads. map fst r = [''ID'', ''Lead Name'']"
    by (simp add: sampleLeads_def)
  have d: "\<forall>r \<in> set sampleLeads. distinct (map fst r) \<and> set (map fst r) = set (map fst (hd sampleLeads))"
    unfolding h using k by simp
  have e: "\<forall>r \<in> set sampleLeads. \<forall>v \<in> snd ` set r.
      dquote \<notin> set v \<and> newline \<notin> set v \<and> js_trim v = v"
    by (simp add: sampleLeads_def js_trim_def isSpace_def)
  from csv_round_trip [OF a b c d e] k h
  obtain csv where "exportToCSV sampleLeads = Some csv" and "parseCSV csv = sampleLeads"
    by auto
  then have "exportToCSV sampleLeads \<noteq> None" and "parseCSV (the (exportToCSV sampleLeads)) = sampleLeads"
    by simp_all
  moreover from k have "list_all (\<lambda>r. map fst r = [''ID'', ''Lead Name'']) sampleLeads"
    by (simp only: list_all_iff)
  moreover from e have "list_all (\<lambda>r. list_all (\<lambda>v. dquote \<notin> set v \<and> newline \<notin> set v \<and> js_trim v = v)
      (map snd r)) sampleLeads"
    by (simp only: list_all_iff set_map)
  ultimately show ?thesis using a by (intro conjI)
qed

end
